theory Spec2Isabelle
  imports Complex_Main "HOL-Library.Multiset" "HOL-Library.Word"
begin

section \<open>Data model\<close>

text \<open>
  Objects of the map graph live on a heap and are referred to by address. A pointer is
  a \<open>nat option\<close>, \<open>None\<close> being \<open>nullptr\<close>; every address holds an object, so
  a pointer that is not null can be followed. Matrices of floats (\<open>cv::Mat\<close> of
  type \<open>CV_32F\<close>) are kept abstract: a type \<open>'m\<close> with a product and a unit
  (\<open>cv::Mat::eye\<close>), of which no law is assumed.
\<close>

datatype eSensor = MONOCULAR | STEREO | RGBD

record 'm KeyFrame =
  mnId :: nat
  mTimeStamp :: real
  kf_mbBad :: bool
  mvpMapPoints :: "nat option list"
  mpParent :: "nat option"
  mTcp :: 'm
  Tcw :: 'm
  Twc :: 'm

record MapPoint =
  mp_mbBad :: bool
  mObservations :: "nat \<rightharpoonup> nat"

record 'm memory =
  kf_at :: "nat \<Rightarrow> 'm KeyFrame"
  mp_at :: "nat \<Rightarrow> MapPoint"

text \<open>
  Class \<open>Map\<close>: its two \<open>std::set\<close>s of pointers, kept as duplicate-free lists in
  iteration order (ascending address), and the big-change counter.
\<close>

record MapStore =
  mspKeyFrames :: "nat list"
  mspMapPoints :: "nat list"
  mnBigChangeIdx :: int

text \<open>
  Class \<open>Tracking\<close>, as far as \<open>System\<close> reads it: the state of the last frame and
  the four parallel lists of the trajectory (one entry per processed frame).
\<close>

record 'm Tracking =
  mState :: int
  mlpReferences :: "nat option list"
  mlFrameTimes :: "real list"
  mlbLost :: "bool list"
  mlRelativeFramePoses :: "'m list"

text \<open>
  The workers and the tracker are collaborators outside the given sources. What the
  controller asks of them is recorded as an event; what they answer is read from the
  \<open>world\<close>, a function of the time at which the question is put. Time advances by one
  with every event, so a world describes any behaviour of the collaborators.
\<close>

datatype thread_body = Body_LoadKeyFrames | Body_LoadMapPoints

datatype event =
    LM_RequestStop
  | LM_isStopped bool
  | LM_Release
  | LM_RequestFinish
  | LM_isFinished bool
  | LC_RequestFinish
  | LC_isFinished bool
  | LC_isRunningGBA bool
  | VW_RequestFinish
  | VW_isFinished bool
  | TR_InformOnlyTracking bool
  | TR_Reset
  | TR_GrabImageStereo
  | TR_GrabImageRGBD
  | TR_GrabImageMonocular
  | Usleep nat
  | Thread_start thread_body
  | Read_is_finished bool
  | Thread_join thread_body
  | KF_UpdateConnections nat
  | MP_ComputeDistinctiveDescriptors nat
  | MP_UpdateNormalAndDepth nat

record 'm world =
  lm_stopped_at :: "nat \<Rightarrow> bool"
  lm_finished_at :: "nat \<Rightarrow> bool"
  lc_finished_at :: "nat \<Rightarrow> bool"
  lc_gba_at :: "nat \<Rightarrow> bool"
  vw_finished_at :: "nat \<Rightarrow> bool"
  is_finished_seen_at :: "nat \<Rightarrow> bool"
  grab_at :: "nat \<Rightarrow> 'm \<times> int"

record 'm System =
  mSensor :: eSensor
  mpViewer :: bool
  mbReset :: bool
  mbActivateLocalizationMode :: bool
  mbDeactivateLocalizationMode :: bool
  mTrackingState :: int
  mpMap :: MapStore
  mpKeyFrameDatabase :: "nat list"
  mpTracker :: "'m Tracking"
  mem :: "'m memory"
  now :: nat
  trace :: "event list"

text \<open>
  What ends the process or is undefined behaviour in C++ is a value: \<open>Exit\<close> for
  \<open>exit(-1)\<close>, \<open>NullDeref\<close> for a member call through \<open>nullptr\<close>,
  \<open>OutOfRange\<close> for \<open>vpKFs[0]\<close> on an empty vector or an iterator moved past the
  end of its list, \<open>ArchiveException\<close> for the exception a failing read of the
  archive throws (nothing catches it), \<open>SignedOverflow\<close> for an \<open>int\<close> product
  outside the range of \<open>int\<close>, \<open>BufferOverrun\<close> for raw bytes moved past the end of
  a buffer, \<open>CvException\<close> for the exception \<open>cv::Mat::create\<close> throws on a negative
  size. A call that never returns is \<open>None\<close>.
\<close>

datatype error =
    Exit | NullDeref | OutOfRange | ArchiveException
  | SignedOverflow | BufferOverrun | CvException

definition emit :: "event \<Rightarrow> 'm System \<Rightarrow> 'm System" where
  "emit e s = s\<lparr>now := Suc (now s), trace := trace s @ [e]\<rparr>"

definition usleep :: "nat \<Rightarrow> 'm System \<Rightarrow> 'm System" where
  "usleep us s = emit (Usleep us) s"

section \<open>Mode changes at the start of a tracking call\<close>

text \<open>
  The three tracking calls. A sensor other than the one the system was built for ends
  the process. The result is the pose the tracker returns and the new state; the
  copies of the tracker's current landmarks and key points, which no decision reads,
  are left out. The locks are not modelled: the calls are taken one at a time.

  \<open>while (!mpLocalMapper->isStopped()) usleep(1000);\<close>
\<close>

partial_function (option) wait_isStopped :: "'m world \<Rightarrow> 'm System \<Rightarrow> 'm System option" where
  "wait_isStopped w s =
     (if lm_stopped_at w (now s) then Some (emit (LM_isStopped True) s)
      else wait_isStopped w (usleep 1000 (emit (LM_isStopped False) s)))"

declare wait_isStopped.simps [code]

definition TrackStereo :: "'m world \<Rightarrow> 'm System \<Rightarrow> (error + 'm \<times> 'm System) option" where
  "TrackStereo w s =
     (if mSensor s \<noteq> STEREO then Some (Inl Exit)
      else
        case (if mbActivateLocalizationMode s
              then (case wait_isStopped w (emit LM_RequestStop s) of
                      None \<Rightarrow> None
                    | Some s' \<Rightarrow>
                        Some ((emit (TR_InformOnlyTracking True) s')
                                \<lparr>mbActivateLocalizationMode := False\<rparr>))
              else Some s) of
          None \<Rightarrow> None
        | Some s1 \<Rightarrow>
            let s2 = (if mbDeactivateLocalizationMode s1
                      then (emit LM_Release (emit (TR_InformOnlyTracking False) s1))
                             \<lparr>mbDeactivateLocalizationMode := False\<rparr>
                      else s1);
                s3 = (if mbReset s2 then (emit TR_Reset s2)\<lparr>mbReset := False\<rparr> else s2);
                s4 = emit TR_GrabImageStereo s3
            in Some (Inr (fst (grab_at w (now s3)),
                          s4\<lparr>mTrackingState := snd (grab_at w (now s3))\<rparr>)))"

definition TrackRGBD :: "'m world \<Rightarrow> 'm System \<Rightarrow> (error + 'm \<times> 'm System) option" where
  "TrackRGBD w s =
     (if mSensor s \<noteq> RGBD then Some (Inl Exit)
      else
        case (if mbActivateLocalizationMode s
              then (case wait_isStopped w (emit LM_RequestStop s) of
                      None \<Rightarrow> None
                    | Some s' \<Rightarrow>
                        Some ((emit (TR_InformOnlyTracking True) s')
                                \<lparr>mbActivateLocalizationMode := False\<rparr>))
              else Some s) of
          None \<Rightarrow> None
        | Some s1 \<Rightarrow>
            let s2 = (if mbDeactivateLocalizationMode s1
                      then (emit LM_Release (emit (TR_InformOnlyTracking False) s1))
                             \<lparr>mbDeactivateLocalizationMode := False\<rparr>
                      else s1);
                s3 = (if mbReset s2 then (emit TR_Reset s2)\<lparr>mbReset := False\<rparr> else s2);
                s4 = emit TR_GrabImageRGBD s3
            in Some (Inr (fst (grab_at w (now s3)),
                          s4\<lparr>mTrackingState := snd (grab_at w (now s3))\<rparr>)))"

text \<open>
  \<open>TrackMonocular\<close> is the same text but for the sensor, the tracker's entry point and
  the argument of \<open>InformOnlyTracking\<close> in the first block, which the source writes
  \<open>false\<close>.
\<close>

definition TrackMonocular :: "'m world \<Rightarrow> 'm System \<Rightarrow> (error + 'm \<times> 'm System) option" where
  "TrackMonocular w s =
     (if mSensor s \<noteq> MONOCULAR then Some (Inl Exit)
      else
        case (if mbActivateLocalizationMode s
              then (case wait_isStopped w (emit LM_RequestStop s) of
                      None \<Rightarrow> None
                    | Some s' \<Rightarrow>
                        Some ((emit (TR_InformOnlyTracking False) s')
                                \<lparr>mbActivateLocalizationMode := False\<rparr>))
              else Some s) of
          None \<Rightarrow> None
        | Some s1 \<Rightarrow>
            let s2 = (if mbDeactivateLocalizationMode s1
                      then (emit LM_Release (emit (TR_InformOnlyTracking False) s1))
                             \<lparr>mbDeactivateLocalizationMode := False\<rparr>
                      else s1);
                s3 = (if mbReset s2 then (emit TR_Reset s2)\<lparr>mbReset := False\<rparr> else s2);
                s4 = emit TR_GrabImageMonocular s3
            in Some (Inr (fst (grab_at w (now s3)),
                          s4\<lparr>mTrackingState := snd (grab_at w (now s3))\<rparr>)))"

definition ActivateLocalizationMode :: "'m System \<Rightarrow> 'm System" where
  "ActivateLocalizationMode s = s\<lparr>mbActivateLocalizationMode := True\<rparr>"

definition DeactivateLocalizationMode :: "'m System \<Rightarrow> 'm System" where
  "DeactivateLocalizationMode s = s\<lparr>mbDeactivateLocalizationMode := True\<rparr>"

definition Reset :: "'m System \<Rightarrow> 'm System" where
  "Reset s = s\<lparr>mbReset := True\<rparr>"

section \<open>Shutdown\<close>

text \<open>\<open>while (!mpViewer->isFinished()) usleep(5000);\<close>\<close>

partial_function (option) wait_viewer_isFinished ::
    "'m world \<Rightarrow> 'm System \<Rightarrow> 'm System option" where
  "wait_viewer_isFinished w s =
     (if vw_finished_at w (now s) then Some (emit (VW_isFinished True) s)
      else wait_viewer_isFinished w (usleep 5000 (emit (VW_isFinished False) s)))"

declare wait_viewer_isFinished.simps [code]

text \<open>
  The last loop of \<open>Shutdown\<close>. Its condition is a short-circuit disjunction: the
  loop closer is asked only once the local mapper has answered that it is finished,
  each question one tick after the one before.
\<close>

partial_function (option) wait_threads_stopped ::
    "'m world \<Rightarrow> 'm System \<Rightarrow> 'm System option" where
  "wait_threads_stopped w s =
     (if \<not> lm_finished_at w (now s)
      then wait_threads_stopped w (usleep 5000 (emit (LM_isFinished False) s))
      else if \<not> lc_finished_at w (Suc (now s))
      then wait_threads_stopped w
             (usleep 5000 (emit (LC_isFinished False) (emit (LM_isFinished True) s)))
      else if lc_gba_at w (Suc (Suc (now s)))
      then wait_threads_stopped w
             (usleep 5000 (emit (LC_isRunningGBA True)
                (emit (LC_isFinished True) (emit (LM_isFinished True) s))))
      else Some (emit (LC_isRunningGBA False)
                  (emit (LC_isFinished True) (emit (LM_isFinished True) s))))"

declare wait_threads_stopped.simps [code]

definition Shutdown :: "'m world \<Rightarrow> 'm System \<Rightarrow> 'm System option" where
  "Shutdown w s =
     (let s1 = emit LC_RequestFinish (emit LM_RequestFinish s)
      in case (if mpViewer s1 then wait_viewer_isFinished w (emit VW_RequestFinish s1)
               else Some s1) of
           None \<Rightarrow> None
         | Some s2 \<Rightarrow> wait_threads_stopped w s2)"

section \<open>Accessors of the map graph\<close>

text \<open>
  Modelled from the spec: the classes \<open>KeyFrame\<close>, \<open>MapPoint\<close>, \<open>Map\<close> and
  \<open>KeyFrameDatabase\<close> are declared outside the given sources. Their members used by
  \<open>System\<close> read or write the fields of the data model: the bad flag (logical
  deletion), the parent reference, the pose and its inverse, the array of landmark
  slots, the observations of a landmark (keyframe to feature index) and the store's
  collections. \<open>KeyFrame::lId\<close> orders keyframes by ascending id.
\<close>

definition isBad :: "'m KeyFrame \<Rightarrow> bool" where
  "isBad kf = kf_mbBad kf"

definition GetParent :: "'m KeyFrame \<Rightarrow> nat option" where
  "GetParent kf = mpParent kf"

definition GetPose :: "'m KeyFrame \<Rightarrow> 'm" where
  "GetPose kf = Tcw kf"

definition GetPoseInverse :: "'m KeyFrame \<Rightarrow> 'm" where
  "GetPoseInverse kf = Twc kf"

definition GetMapPointMatches :: "'m KeyFrame \<Rightarrow> nat option list" where
  "GetMapPointMatches kf = mvpMapPoints kf"

definition MapPoint_isBad :: "MapPoint \<Rightarrow> bool" where
  "MapPoint_isBad mp = mp_mbBad mp"

definition set_insert :: "nat \<Rightarrow> nat list \<Rightarrow> nat list" where
  "set_insert x xs = (if x \<in> set xs then xs else insort x xs)"

definition GetAllKeyFrames :: "MapStore \<Rightarrow> nat list" where
  "GetAllKeyFrames mp = mspKeyFrames mp"

definition GetAllMapPoints :: "MapStore \<Rightarrow> nat list" where
  "GetAllMapPoints mp = mspMapPoints mp"

definition Map_AddKeyFrame :: "nat \<Rightarrow> MapStore \<Rightarrow> MapStore" where
  "Map_AddKeyFrame k mp = mp\<lparr>mspKeyFrames := set_insert k (mspKeyFrames mp)\<rparr>"

definition Map_AddMapPoint :: "nat \<Rightarrow> MapStore \<Rightarrow> MapStore" where
  "Map_AddMapPoint p mp = mp\<lparr>mspMapPoints := set_insert p (mspMapPoints mp)\<rparr>"

definition KeyFrameDatabase_add :: "nat \<Rightarrow> nat list \<Rightarrow> nat list" where
  "KeyFrameDatabase_add k db = set_insert k db"

definition AddObservation :: "nat \<Rightarrow> nat \<Rightarrow> nat \<Rightarrow> 'm memory \<Rightarrow> 'm memory" where
  "AddObservation p k i h =
     h\<lparr>mp_at := (mp_at h)(p := (mp_at h p)\<lparr>mObservations := (mObservations (mp_at h p))(k \<mapsto> i)\<rparr>)\<rparr>"

definition KeyFrame_AddMapPoint :: "nat \<Rightarrow> nat \<Rightarrow> nat \<Rightarrow> 'm memory \<Rightarrow> 'm memory" where
  "KeyFrame_AddMapPoint k p i h =
     h\<lparr>kf_at := (kf_at h)(k := (kf_at h k)\<lparr>mvpMapPoints := (mvpMapPoints (kf_at h k))[i := Some p]\<rparr>)\<rparr>"

text \<open>
  \<open>sort(vpKFs.begin(), vpKFs.end(), KeyFrame::lId)\<close>. \<open>std::sort\<close> is not stable: it
  leaves the order of two keyframes of equal id unspecified, where \<open>sort_key\<close> keeps
  the order they had. The two agree on keyframes of distinct ids, and the snapshot
  theorem says of the sorted vector only that it is a permutation of the input in
  ascending order of id, which holds of either.
\<close>

definition sort_lId :: "'m memory \<Rightarrow> nat list \<Rightarrow> nat list" where
  "sort_lId h vpKFs = sort_key (\<lambda>p. mnId (kf_at h p)) vpKFs"

section \<open>Trajectory export\<close>

text \<open>
  \<open>while (pKF->isBad()) { Trw = Trw * pKF->mTcp; pKF = pKF->GetParent(); }\<close>
  The loop has no bound and no null test. It may run forever, so it is a partial
  function: \<open>None\<close> is a walk that never leaves the loop.
\<close>

partial_function (option) walk_parents ::
    "('m::times) memory \<Rightarrow> 'm \<Rightarrow> nat option \<Rightarrow> (error + 'm \<times> nat) option" where
  "walk_parents h Trw pKF =
     (case pKF of
        None \<Rightarrow> Some (Inl NullDeref)
      | Some p \<Rightarrow>
          if isBad (kf_at h p)
          then walk_parents h (Trw * mTcp (kf_at h p)) (GetParent (kf_at h p))
          else Some (Inr (Trw, p)))"

declare walk_parents.simps [code]

text \<open>
  A line sent to the output stream. The numbers printed on it are read off the float
  matrix \<open>Tcw\<close> (rotation, translation, quaternion); the line is represented by that
  matrix and, in format A, the time stamp.
\<close>

datatype 'm line = TUM_line real 'm | KITTI_line 'm

text \<open>
  The loop of \<open>SaveTrajectoryTUM\<close> over the four parallel lists of the tracker; \<open>f\<close>
  is what has been streamed so far. Only the list of relative poses bounds the loop:
  another list ending first is an iterator moved past its end.
\<close>

fun TUM_frames ::
    "('m::{one,times}) memory \<Rightarrow> 'm \<Rightarrow> 'm line list \<Rightarrow> 'm list \<Rightarrow> nat option list \<Rightarrow> real list
       \<Rightarrow> bool list \<Rightarrow> (error + 'm line list) option" where
  "TUM_frames h Two f [] lRit lT lbL = Some (Inr f)"
| "TUM_frames h Two f (lit # lits) (pKF # lRit) (t # lT) (lost # lbL) =
     (if lost then TUM_frames h Two f lits lRit lT lbL
      else
        case walk_parents h 1 pKF of
          None \<Rightarrow> None
        | Some (Inl e) \<Rightarrow> Some (Inl e)
        | Some (Inr (Trw, k)) \<Rightarrow>
            TUM_frames h Two (f @ [TUM_line t (lit * (Trw * GetPose (kf_at h k) * Two))])
              lits lRit lT lbL)"
| "TUM_frames h Two f (lit # lits) lRit lT lbL = Some (Inl OutOfRange)"

text \<open>The loop of \<open>SaveTrajectoryKITTI\<close>: it has no iterator over \<open>mlbLost\<close>.\<close>

fun KITTI_frames ::
    "('m::{one,times}) memory \<Rightarrow> 'm \<Rightarrow> 'm line list \<Rightarrow> 'm list \<Rightarrow> nat option list \<Rightarrow> real list
       \<Rightarrow> (error + 'm line list) option" where
  "KITTI_frames h Two f [] lRit lT = Some (Inr f)"
| "KITTI_frames h Two f (lit # lits) (pKF # lRit) (t # lT) =
     (case walk_parents h 1 pKF of
        None \<Rightarrow> None
      | Some (Inl e) \<Rightarrow> Some (Inl e)
      | Some (Inr (Trw, k)) \<Rightarrow>
          KITTI_frames h Two (f @ [KITTI_line (lit * (Trw * GetPose (kf_at h k) * Two))])
            lits lRit lT)"
| "KITTI_frames h Two f (lit # lits) lRit lT = Some (Inl OutOfRange)"

text \<open>
  The result is what was streamed to the file, \<open>None\<close> when the function returns
  before opening it.
\<close>

definition SaveTrajectoryTUM ::
    "('m::{one,times}) System \<Rightarrow> (error + 'm line list option) option" where
  "SaveTrajectoryTUM s =
     (if mSensor s = MONOCULAR then Some (Inr None)
      else
        case sort_lId (mem s) (GetAllKeyFrames (mpMap s)) of
          [] \<Rightarrow> Some (Inl OutOfRange)
        | k0 # _ \<Rightarrow>
            (case TUM_frames (mem s) (GetPoseInverse (kf_at (mem s) k0)) []
                    (mlRelativeFramePoses (mpTracker s)) (mlpReferences (mpTracker s))
                    (mlFrameTimes (mpTracker s)) (mlbLost (mpTracker s)) of
               None \<Rightarrow> None
             | Some (Inl e) \<Rightarrow> Some (Inl e)
             | Some (Inr f) \<Rightarrow> Some (Inr (Some f))))"

definition SaveTrajectoryKITTI ::
    "('m::{one,times}) System \<Rightarrow> (error + 'm line list option) option" where
  "SaveTrajectoryKITTI s =
     (if mSensor s = MONOCULAR then Some (Inr None)
      else
        case sort_lId (mem s) (GetAllKeyFrames (mpMap s)) of
          [] \<Rightarrow> Some (Inl OutOfRange)
        | k0 # _ \<Rightarrow>
            (case KITTI_frames (mem s) (GetPoseInverse (kf_at (mem s) k0)) []
                    (mlRelativeFramePoses (mpTracker s)) (mlpReferences (mpTracker s))
                    (mlFrameTimes (mpTracker s)) of
               None \<Rightarrow> None
             | Some (Inl e) \<Rightarrow> Some (Inl e)
             | Some (Inr f) \<Rightarrow> Some (Inr (Some f))))"

text \<open>
  What the walk computes when it ends well, as total functions: the ancestor after
  \<open>n\<close> hops and the product accumulated over these hops.
\<close>

fun ancestor :: "'m memory \<Rightarrow> nat \<Rightarrow> nat option \<Rightarrow> nat option" where
  "ancestor h 0 pKF = pKF"
| "ancestor h (Suc n) pKF =
     (case pKF of None \<Rightarrow> None | Some p \<Rightarrow> ancestor h n (GetParent (kf_at h p)))"

fun hops_product :: "('m::times) memory \<Rightarrow> nat \<Rightarrow> 'm \<Rightarrow> nat option \<Rightarrow> 'm" where
  "hops_product h 0 Trw pKF = Trw"
| "hops_product h (Suc n) Trw pKF =
     (case pKF of
        None \<Rightarrow> Trw
      | Some p \<Rightarrow> hops_product h n (Trw * mTcp (kf_at h p)) (GetParent (kf_at h p)))"

section \<open>Saving the map\<close>

text \<open>
  The archive, as \<open>SaveMap\<close> fills it: whether a header precedes the data
  (\<open>boost::archive::no_header\<close> suppresses it) and the items streamed, in order. A
  vector of pointers is streamed as one item holding the pointed-to objects, each with
  the address the others refer to it by; the layout of an object is the codec's.
\<close>

datatype 'm archive_item =
    Item_KeyFrames "(nat \<times> 'm KeyFrame) list"
  | Item_MapPoints "(nat \<times> MapPoint) list"

record 'm archive =
  ar_header :: bool
  ar_items :: "'m archive_item list"

text \<open>\<open>can_write\<close> tells whether the file system lets the path be opened for writing.\<close>

definition SaveMap :: "(string \<Rightarrow> bool) \<Rightarrow> 'm System \<Rightarrow> string \<Rightarrow> error + 'm archive" where
  "SaveMap can_write s filename =
     (if \<not> can_write filename then Inl Exit
      else
        let vpKFs = GetAllKeyFrames (mpMap s);
            vMapPoints = GetAllMapPoints (mpMap s);
            vpKFs' = sort_lId (mem s) vpKFs
        in Inr \<lparr>ar_header = False,
                ar_items = [Item_KeyFrames (map (\<lambda>p. (p, kf_at (mem s) p)) vpKFs'),
                            Item_MapPoints (map (\<lambda>p. (p, mp_at (mem s) p)) vMapPoints)]\<rparr>)"

section \<open>Loading the map\<close>

text \<open>
  \<open>System::AddKeyFrame\<close>: the loop over the copy \<open>vpMaps\<close> of the keyframe's slots,
  index \<open>i\<close> running from 0.
\<close>

definition AddKeyFrame_slot :: "nat \<Rightarrow> nat option list \<Rightarrow> nat \<Rightarrow> 'm System \<Rightarrow> 'm System" where
  "AddKeyFrame_slot keyframe vpMaps i s =
     (case vpMaps ! i of
        None \<Rightarrow> s
      | Some pMP \<Rightarrow>
          if MapPoint_isBad (mp_at (mem s) pMP) then s
          else s\<lparr>mem := KeyFrame_AddMapPoint keyframe pMP i
                           (AddObservation pMP keyframe i (mem s)),
                  mpMap := Map_AddMapPoint pMP (mpMap s)\<rparr>)"

definition AddKeyFrame :: "nat \<Rightarrow> 'm System \<Rightarrow> 'm System" where
  "AddKeyFrame keyframe s =
     (let s1 = s\<lparr>mpMap := Map_AddKeyFrame keyframe (mpMap s),
                  mpKeyFrameDatabase := KeyFrameDatabase_add keyframe (mpKeyFrameDatabase s)\<rparr>;
          vpMaps = GetMapPointMatches (kf_at (mem s1) keyframe)
      in fold (AddKeyFrame_slot keyframe vpMaps) [0..<length vpMaps] s1)"

text \<open>
  \<open>System::LoadKeyFrames\<close>, the body of the first thread; the second component is the
  progress counter \<open>*pCount\<close>. Setting \<open>*p_is_finished\<close> is its last statement, which
  the controller observes through the world.
\<close>

definition LoadKeyFrames_step :: "nat option \<Rightarrow> 'm System \<times> nat \<Rightarrow> 'm System \<times> nat" where
  "LoadKeyFrames_step pKF sc =
     (case pKF of
        None \<Rightarrow> sc
      | Some k \<Rightarrow>
          if isBad (kf_at (mem (fst sc)) k) then sc
          else (AddKeyFrame k (fst sc), Suc (snd sc)))"

definition LoadKeyFrames :: "nat option list \<Rightarrow> 'm System \<times> nat \<Rightarrow> 'm System \<times> nat" where
  "LoadKeyFrames vpKFs sc = fold LoadKeyFrames_step vpKFs sc"

text \<open>
  \<open>System::LoadMapPoints\<close>, the body of the second thread. Every entry is dereferenced
  without a test. Recomputing the descriptor and the viewing and depth statistics is
  the landmark's own business (floats); the calls are recorded.
\<close>

fun LoadMapPoints :: "nat option list \<Rightarrow> 'm System \<Rightarrow> error + 'm System" where
  "LoadMapPoints [] s = Inr s"
| "LoadMapPoints (None # saved_map_points) s = Inl NullDeref"
| "LoadMapPoints (Some p # saved_map_points) s =
     LoadMapPoints saved_map_points
       ((emit (MP_UpdateNormalAndDepth p) (emit (MP_ComputeDistinctiveDescriptors p) s))
          \<lparr>mpMap := Map_AddMapPoint p (mpMap s)\<rparr>)"

text \<open>
  \<open>for (i = 0; i < vpKFs.size(); i++) vpKFs[i]->UpdateConnections();\<close> in
  \<open>LoadMap\<close>, over the decoded vector.
\<close>

fun UpdateConnections_all :: "nat option list \<Rightarrow> 'm System \<Rightarrow> error + 'm System" where
  "UpdateConnections_all [] s = Inr s"
| "UpdateConnections_all (None # vpKFs) s = Inl NullDeref"
| "UpdateConnections_all (Some k # vpKFs) s =
     UpdateConnections_all vpKFs (emit (KF_UpdateConnections k) s)"

text \<open>\<open>while (!is_finished) usleep(30000);\<close>\<close>

partial_function (option) wait_is_finished :: "'m world \<Rightarrow> 'm System \<Rightarrow> 'm System option" where
  "wait_is_finished w s =
     (if is_finished_seen_at w (now s) then Some (emit (Read_is_finished True) s)
      else wait_is_finished w (usleep 30000 (emit (Read_is_finished False) s)))"

declare wait_is_finished.simps [code]

text \<open>
  \<open>System::LoadMap\<close>. \<open>fs_open\<close> is the file system: the content of the file behind a
  path, \<open>None\<close> when it cannot be opened for reading. \<open>decode\<close> is the archive's
  reading of the two vectors (the objects' own \<open>serialize\<close> members are outside the
  given sources): it allocates the decoded objects and yields the two vectors of
  pointers, or \<open>None\<close> when the stream does not decode.

  The model is the controller's program order. The first thread runs between its start
  and the read of \<open>is_finished\<close> that ends the polling; its writes are placed at its
  start. The second thread runs between its start and its join, while the controller
  goes through \<open>vpKFs\<close>; its writes are placed at the join.
\<close>

definition LoadMap ::
    "(string \<Rightarrow> 'c option) \<Rightarrow> ('c \<Rightarrow> 'm memory \<Rightarrow> (nat option list \<times> nat option list \<times> 'm memory) option)
       \<Rightarrow> 'm world \<Rightarrow> 'm System \<Rightarrow> string \<Rightarrow> (error + bool \<times> 'm System) option" where
  "LoadMap fs_open decode w s filename =
     (if filename = [] then Some (Inr (False, s))
      else
        case fs_open filename of
          None \<Rightarrow> Some (Inr (False, s))
        | Some content \<Rightarrow>
            (case decode content (mem s) of
               None \<Rightarrow> Some (Inl ArchiveException)
             | Some (vpKFs, vMapPoints, h) \<Rightarrow>
                 (case wait_is_finished w
                         (fst (LoadKeyFrames vpKFs
                                (emit (Thread_start Body_LoadKeyFrames) (s\<lparr>mem := h\<rparr>), 0))) of
                    None \<Rightarrow> None
                  | Some s2 \<Rightarrow>
                      (case UpdateConnections_all vpKFs
                              (emit (Thread_start Body_LoadMapPoints)
                                 (emit (Thread_join Body_LoadKeyFrames) s2)) of
                         Inl e \<Rightarrow> Some (Inl e)
                       | Inr s3 \<Rightarrow>
                           (case LoadMapPoints vMapPoints s3 of
                              Inl e \<Rightarrow> Some (Inl e)
                            | Inr s4 \<Rightarrow>
                                Some (Inr (True, emit (Thread_join Body_LoadMapPoints) s4)))))))"

section \<open>The matrix codec\<close>

type_synonym byte = "8 word"

text \<open>
  \<open>cv::Mat\<close> (OpenCV, two-dimensional) as the codec reads it: the header fields, the
  continuity flag, the distance in bytes between the starts of two rows, and the bytes
  reachable from \<open>ptr()\<close>. \<open>elemSize\<close> follows the type tag: the three low bits name
  the depth, the bits above them the number of channels less one.
\<close>

record Mat =
  mat_rows :: int
  mat_cols :: int
  mat_type :: nat
  mat_continuous :: bool
  mat_step :: nat
  mat_data :: "byte list"

definition depth_size :: "nat \<Rightarrow> nat" where
  "depth_size d = [1, 1, 2, 2, 4, 4, 8, 2] ! (d mod 8)"

definition elemSize_of :: "nat \<Rightarrow> nat" where
  "elemSize_of ty = (ty mod 4096 div 8 + 1) * depth_size (ty mod 8)"

definition elemSize :: "Mat \<Rightarrow> nat" where
  "elemSize m = elemSize_of (mat_type m)"

definition isContinuous :: "Mat \<Rightarrow> bool" where
  "isContinuous m = mat_continuous m"

definition clone :: "Mat \<Rightarrow> Mat" where
  "clone m =
     m\<lparr>mat_continuous := True,
       mat_step := nat (mat_cols m) * elemSize m,
       mat_data := concat (map (\<lambda>r. take (nat (mat_cols m) * elemSize m)
                                      (drop (r * mat_step m) (mat_data m)))
                               [0..<nat (mat_rows m)])\<rparr>"

text \<open>
  \<open>uninit n\<close> stands for the content of a freshly allocated buffer of \<open>n\<close> bytes,
  which nothing initialises.
\<close>

definition fresh_buffer :: "(nat \<Rightarrow> byte list) \<Rightarrow> nat \<Rightarrow> byte list" where
  "fresh_buffer uninit n = take n (uninit n @ replicate n 0)"

text \<open>
  \<open>m.create(rows, cols, type)\<close>: a matrix that has this shape and type already and
  owns a buffer is left as it is; otherwise a continuous buffer is allocated.
\<close>

definition Mat_create :: "(nat \<Rightarrow> byte list) \<Rightarrow> int \<Rightarrow> int \<Rightarrow> int \<Rightarrow> Mat \<Rightarrow> error + Mat" where
  "Mat_create uninit rows cols ty m =
     (if rows < 0 \<or> cols < 0 then Inl CvException
      else if mat_rows m = rows \<and> mat_cols m = cols \<and> int (mat_type m) = ty mod 4096
              \<and> mat_data m \<noteq> [] then Inr m
      else Inr \<lparr>mat_rows = rows, mat_cols = cols, mat_type = nat (ty mod 4096),
                mat_continuous = True,
                mat_step = nat cols * elemSize_of (nat (ty mod 4096)),
                mat_data = fresh_buffer uninit
                             (nat rows * nat cols * elemSize_of (nat (ty mod 4096)))\<rparr>)"

text \<open>
  The binary archive moves the bytes of a number as the machine holds them: four bytes
  for an \<open>int\<close>, eight for a \<open>size_t\<close>, least significant first, an \<open>int\<close> in two's
  complement. An array is moved as its bytes, with no length before them.
\<close>

fun le_bytes :: "nat \<Rightarrow> nat \<Rightarrow> byte list" where
  "le_bytes 0 v = []"
| "le_bytes (Suc k) v = of_nat (v mod 256) # le_bytes k (v div 256)"

fun le_value :: "byte list \<Rightarrow> nat" where
  "le_value [] = 0"
| "le_value (b # bs) = unat b + 256 * le_value bs"

definition int_in_range :: "int \<Rightarrow> bool" where
  "int_in_range i = (- (2 ^ 31) \<le> i \<and> i < 2 ^ 31)"

definition size_t_of_int :: "int \<Rightarrow> nat" where
  "size_t_of_int i = nat (i mod 2 ^ 64)"

definition int_of_size_t :: "nat \<Rightarrow> int" where
  "int_of_size_t n =
     (if n mod 2 ^ 32 < 2 ^ 31 then int (n mod 2 ^ 32) else int (n mod 2 ^ 32) - 2 ^ 32)"

definition save_int :: "int \<Rightarrow> byte list" where
  "save_int i = le_bytes 4 (nat (i mod 2 ^ 32))"

definition save_size_t :: "nat \<Rightarrow> byte list" where
  "save_size_t n = le_bytes 8 (n mod 2 ^ 64)"

definition load_int :: "byte list \<Rightarrow> (int \<times> byte list) option" where
  "load_int ar =
     (if length ar < 4 then None
      else Some (int_of_size_t (le_value (take 4 ar)), drop 4 ar))"

definition load_size_t :: "byte list \<Rightarrow> (nat \<times> byte list) option" where
  "load_size_t ar =
     (if length ar < 8 then None else Some (le_value (take 8 ar), drop 8 ar))"

text \<open>
  \<open>cols * rows * elem_size\<close> on the fields of the matrix: the product of the two
  \<open>int\<close>s is taken in \<open>int\<close>, converted to \<open>size_t\<close> and multiplied there.
\<close>

definition data_size_of :: "int \<Rightarrow> int \<Rightarrow> nat \<Rightarrow> error + nat" where
  "data_size_of cols rows elem_size =
     (if \<not> int_in_range (cols * rows) then Inl SignedOverflow
      else Inr ((size_t_of_int (cols * rows) * elem_size) mod 2 ^ 64))"

text \<open>\<open>boost::serialization::save\<close> for \<open>cv::Mat\<close>: the bytes appended to the archive.\<close>

definition Mat_save :: "Mat \<Rightarrow> error + byte list" where
  "Mat_save m =
     (let m' = (if \<not> isContinuous m then clone m else m);
          elem_size = elemSize m';
          elem_type = mat_type m'
      in case data_size_of (mat_cols m') (mat_rows m') elem_size of
           Inl e \<Rightarrow> Inl e
         | Inr data_size \<Rightarrow>
             if length (mat_data m') < data_size then Inl BufferOverrun
             else Inr (save_int (mat_cols m') @ save_int (mat_rows m')
                       @ save_size_t elem_size @ save_size_t elem_type
                       @ take data_size (mat_data m')))"

text \<open>
  \<open>boost::serialization::load\<close> for \<open>cv::Mat\<close>: from the matrix handed in and the
  archive, the matrix read and the rest of the archive.
\<close>

definition Mat_load :: "(nat \<Rightarrow> byte list) \<Rightarrow> Mat \<Rightarrow> byte list \<Rightarrow> error + Mat \<times> byte list" where
  "Mat_load uninit m0 ar =
     (case load_int ar of
        None \<Rightarrow> Inl ArchiveException
      | Some (cols, ar1) \<Rightarrow>
     (case load_int ar1 of
        None \<Rightarrow> Inl ArchiveException
      | Some (rows, ar2) \<Rightarrow>
     (case load_size_t ar2 of
        None \<Rightarrow> Inl ArchiveException
      | Some (elem_size, ar3) \<Rightarrow>
     (case load_size_t ar3 of
        None \<Rightarrow> Inl ArchiveException
      | Some (elem_type, ar4) \<Rightarrow>
     (case Mat_create uninit rows cols (int_of_size_t elem_type) m0 of
        Inl e \<Rightarrow> Inl e
      | Inr m \<Rightarrow>
     (case data_size_of (mat_cols m) (mat_rows m) elem_size of
        Inl e \<Rightarrow> Inl e
      | Inr data_size \<Rightarrow>
          if length ar4 < data_size then Inl ArchiveException
          else if length (mat_data m) < data_size then Inl BufferOverrun
          else Inr (m\<lparr>mat_data := take data_size ar4 @ drop data_size (mat_data m)\<rparr>,
                    drop data_size ar4)))))))"

text \<open>
  A matrix the codec can be handed: the sizes are \<open>int\<close>s and not negative, the type
  tag has twelve bits, and the buffer holds the rows (back to back when the matrix is
  continuous). Nothing in \<open>cv::Mat\<close> bounds the number of elements by the range of
  \<open>int\<close>: \<open>elements_in_int\<close> says of a matrix that it has fewer than \<open>2^31\<close> of
  them.
\<close>

definition wf_Mat :: "Mat \<Rightarrow> bool" where
  "wf_Mat m =
     (int_in_range (mat_rows m) \<and> int_in_range (mat_cols m)
      \<and> 0 \<le> mat_rows m \<and> 0 \<le> mat_cols m
      \<and> mat_type m < 4096
      \<and> nat (mat_cols m) * elemSize m \<le> mat_step m
      \<and> (mat_continuous m \<longrightarrow> mat_step m = nat (mat_cols m) * elemSize m)
      \<and> length (mat_data m) = nat (mat_rows m) * mat_step m)"

definition elements_in_int :: "Mat \<Rightarrow> bool" where
  "elements_in_int m = (mat_rows m * mat_cols m < 2 ^ 31)"

text \<open>The four header fields of a matrix, as \<open>save\<close> streams them.\<close>

definition Mat_header :: "Mat \<Rightarrow> byte list" where
  "Mat_header m = save_int (mat_cols m) @ save_int (mat_rows m)
                  @ save_size_t (elemSize m) @ save_size_t (mat_type m)"

section \<open>MapChanged\<close>

text \<open>
  Modelled from the spec: \<open>Map::GetLastBigChangeIdx\<close> is declared outside the given
  sources; it reads the store's structural change counter.
\<close>

definition GetLastBigChangeIdx :: "MapStore \<Rightarrow> int" where
  "GetLastBigChangeIdx mp = mnBigChangeIdx mp"

text \<open>
  \<open>static int n = 0\<close> inside \<open>System::MapChanged\<close> is one variable of the process,
  0 before the first call. It is no field of a \<open>System\<close>: the function takes its
  value and returns the new one, together with the result; the instance only
  contributes its \<open>mpMap\<close>.
\<close>

definition MapChanged :: "int \<Rightarrow> 'm System \<Rightarrow> bool \<times> int" where
  "MapChanged n s =
     (let curn = GetLastBigChangeIdx (mpMap s)
      in if n < curn then (True, curn) else (False, n))"

section \<open>Vocabulary for the order of events\<close>

text \<open>
  \<open>settled w T\<close>: from time \<open>T\<close> on both workers report finished, no global
  optimisation runs and the viewer reports finished. The finish flags are one-way, so
  this is what workers that honour \<open>RequestFinish\<close> come to.
\<close>

definition settled :: "'m world \<Rightarrow> nat \<Rightarrow> bool" where
  "settled w T =
     (\<forall>t\<ge>T. lm_finished_at w t \<and> lc_finished_at w t \<and> \<not> lc_gba_at w t
             \<and> vw_finished_at w t)"

text \<open>The events of the last loop of \<open>Shutdown\<close>, and the three answers that end it.\<close>

fun is_worker_wait :: "event \<Rightarrow> bool" where
  "is_worker_wait (LM_isFinished b) = True"
| "is_worker_wait (LC_isFinished b) = True"
| "is_worker_wait (LC_isRunningGBA b) = True"
| "is_worker_wait (Usleep us) = True"
| "is_worker_wait e = False"

definition workers_done :: "event list" where
  "workers_done = [LM_isFinished True, LC_isFinished True, LC_isRunningGBA False]"

text \<open>
  The order the specification gives for \<open>Shutdown\<close>: the viewer is asked to finish
  only once the wait for the workers has ended.
\<close>

definition viewer_after_workers :: "event list \<Rightarrow> bool" where
  "viewer_after_workers tr =
     (\<forall>i<length tr. tr ! i = VW_RequestFinish \<longrightarrow> LC_isRunningGBA False \<in> set (take i tr))"

text \<open>What holds when the last loop of \<open>Shutdown\<close> is left.\<close>

definition threads_post :: "'m world \<Rightarrow> 'm System \<Rightarrow> 'm System \<Rightarrow> bool" where
  "threads_post w s s' =
     (\<exists>pre. trace s' = trace s @ pre @ workers_done \<and> list_all is_worker_wait pre
     \<and> mpViewer s' = mpViewer s
     \<and> 3 \<le> now s' \<and> lm_finished_at w (now s' - 3) \<and> lc_finished_at w (now s' - 2)
     \<and> \<not> lc_gba_at w (now s' - 1))"

section \<open>Vocabulary for the keyframe install\<close>

text \<open>
  \<open>survives h vpKFs k\<close>: \<open>k\<close> is an entry of the decoded vector that is neither null
  nor bad. \<open>good_slot h k i p\<close>: slot \<open>i\<close> of keyframe \<open>k\<close> holds the landmark \<open>p\<close>,
  which is not bad. \<open>only_slot h k i p\<close>: keyframe \<open>k\<close> holds the non-bad landmark
  \<open>p\<close> in no slot other than \<open>i\<close>. \<open>last_slot xs p n\<close> is the last index below
  \<open>n\<close> at which \<open>xs\<close> holds \<open>p\<close>.
\<close>

definition survives :: "'m memory \<Rightarrow> nat option list \<Rightarrow> nat \<Rightarrow> bool" where
  "survives h vpKFs k = (Some k \<in> set vpKFs \<and> \<not> isBad (kf_at h k))"

definition good_slot :: "'m memory \<Rightarrow> nat \<Rightarrow> nat \<Rightarrow> nat \<Rightarrow> bool" where
  "good_slot h k i p =
     (i < length (mvpMapPoints (kf_at h k)) \<and> mvpMapPoints (kf_at h k) ! i = Some p
      \<and> \<not> MapPoint_isBad (mp_at h p))"

definition only_slot :: "'m memory \<Rightarrow> nat \<Rightarrow> nat \<Rightarrow> nat \<Rightarrow> bool" where
  "only_slot h k i p = (\<forall>j. good_slot h k j p \<longrightarrow> j = i)"

fun last_slot :: "nat option list \<Rightarrow> nat \<Rightarrow> nat \<Rightarrow> nat option" where
  "last_slot xs p 0 = None"
| "last_slot xs p (Suc n) = (if xs ! n = Some p then Some n else last_slot xs p n)"

section \<open>Inputs for the examples\<close>

text \<open>
  A \<open>System\<close> as its constructor leaves it when no map is loaded (nothing pending, an
  empty store), a world in which every worker has done what it was asked from time
  \<open>T\<close> on, and the events of \<open>k\<close> rounds of a polling loop that were answered no.
\<close>

definition KeyFrame_default :: "('m::one) KeyFrame" where
  "KeyFrame_default = \<lparr>mnId = 0, mTimeStamp = 0, kf_mbBad = False, mvpMapPoints = [],
     mpParent = None, mTcp = 1, Tcw = 1, Twc = 1\<rparr>"

definition MapPoint_default :: MapPoint where
  "MapPoint_default = \<lparr>mp_mbBad = False, mObservations = Map.empty\<rparr>"

definition System_new :: "eSensor \<Rightarrow> bool \<Rightarrow> ('m::one) System" where
  "System_new sensor bUseViewer =
     \<lparr>mSensor = sensor, mpViewer = bUseViewer, mbReset = False,
      mbActivateLocalizationMode = False, mbDeactivateLocalizationMode = False,
      mTrackingState = 0,
      mpMap = \<lparr>mspKeyFrames = [], mspMapPoints = [], mnBigChangeIdx = 0\<rparr>,
      mpKeyFrameDatabase = [],
      mpTracker = \<lparr>mState = 0, mlpReferences = [], mlFrameTimes = [], mlbLost = [],
                   mlRelativeFramePoses = []\<rparr>,
      mem = \<lparr>kf_at = (\<lambda>_. KeyFrame_default), mp_at = (\<lambda>_. MapPoint_default)\<rparr>,
      now = 0, trace = []\<rparr>"

definition world_after :: "nat \<Rightarrow> ('m::one) world" where
  "world_after T =
     \<lparr>lm_stopped_at = (\<lambda>t. T \<le> t), lm_finished_at = (\<lambda>t. T \<le> t),
      lc_finished_at = (\<lambda>t. T \<le> t), lc_gba_at = (\<lambda>t. t < T),
      vw_finished_at = (\<lambda>t. T \<le> t), is_finished_seen_at = (\<lambda>t. T \<le> t),
      grab_at = (\<lambda>t. (1, 2))\<rparr>"

fun polls :: "event \<Rightarrow> nat \<Rightarrow> nat \<Rightarrow> event list" where
  "polls e us 0 = []"
| "polls e us (Suc k) = e # Usleep us # polls e us k"

text \<open>An instance whose store's big-change index is \<open>c\<close>.\<close>

definition System_at_idx :: "int \<Rightarrow> ('m::one) System" where
  "System_at_idx c =
     (System_new STEREO False)
       \<lparr>mpMap := \<lparr>mspKeyFrames = [], mspMapPoints = [], mnBigChangeIdx = c\<rparr>\<rparr>"

text \<open>
  A graph for the trajectory examples: keyframe 1 is good; 2 and 3 are bad, 3 below 2
  below 1; 4 and 5 are bad and each other's parent; 6 is bad and has no parent. The
  tracker holds three records, the second lost, all referring to keyframe \<open>ref\<close>.
\<close>

definition KeyFrame_ex :: "nat \<Rightarrow> bool \<Rightarrow> nat option \<Rightarrow> int \<Rightarrow> int KeyFrame" where
  "KeyFrame_ex i bad parent tcp =
     KeyFrame_default\<lparr>mnId := i, kf_mbBad := bad, mpParent := parent, mTcp := tcp\<rparr>"

definition memory_ex :: "int memory" where
  "memory_ex =
     \<lparr>kf_at = (\<lambda>_. KeyFrame_default)
               (1 := KeyFrame_ex 0 False None 1,
                2 := KeyFrame_ex 1 True (Some 1) 2,
                3 := KeyFrame_ex 2 True (Some 2) 3,
                4 := KeyFrame_ex 3 True (Some 5) 5,
                5 := KeyFrame_ex 4 True (Some 4) 7,
                6 := KeyFrame_ex 5 True None 11),
      mp_at = (\<lambda>_. MapPoint_default)\<rparr>"

definition System_traj :: "eSensor \<Rightarrow> nat \<Rightarrow> int System" where
  "System_traj sensor ref =
     (System_new sensor False)
       \<lparr>mpMap := \<lparr>mspKeyFrames = [1], mspMapPoints = [], mnBigChangeIdx = 0\<rparr>,
        mem := memory_ex,
        mpTracker := \<lparr>mState = 2,
                       mlpReferences = [Some ref, Some ref, Some ref],
                       mlFrameTimes = [1, 2, 3],
                       mlbLost = [False, True, False],
                       mlRelativeFramePoses = [1, 1, 1]\<rparr>\<rparr>"

text \<open>
  A decoded batch for the loading examples. Keyframe 10 (id 5) holds landmark 100 in
  slot 0 and 101 in slot 2; keyframe 11 (id 1) is bad; keyframe 12 (id 3) holds the
  bad landmark 102 in slot 0 and 101 in slot 1. The decoded keyframe vector has a
  null entry; \<open>decode_ex\<close> hands out this batch whatever the content.
\<close>

definition KeyFrame_slots :: "nat \<Rightarrow> bool \<Rightarrow> nat option list \<Rightarrow> int KeyFrame" where
  "KeyFrame_slots i bad slots = KeyFrame_default\<lparr>mnId := i, kf_mbBad := bad, mvpMapPoints := slots\<rparr>"

definition memory_graph :: "int memory" where
  "memory_graph =
     \<lparr>kf_at = (\<lambda>_. KeyFrame_default)
               (10 := KeyFrame_slots 5 False [Some 100, None, Some 101],
                11 := KeyFrame_slots 1 True [Some 100],
                12 := KeyFrame_slots 3 False [Some 102, Some 101]),
      mp_at = (\<lambda>_. MapPoint_default)(102 := MapPoint_default\<lparr>mp_mbBad := True\<rparr>)\<rparr>"

definition vpKFs_ex :: "nat option list" where
  "vpKFs_ex = [Some 10, None, Some 11, Some 12]"

definition vMapPoints_ex :: "nat option list" where
  "vMapPoints_ex = [Some 100, Some 101, Some 102]"

definition decode_ex ::
    "nat option list \<Rightarrow> unit \<Rightarrow> int memory \<Rightarrow> (nat option list \<times> nat option list \<times> int memory) option" where
  "decode_ex vpKFs content h = Some (vpKFs, vMapPoints_ex, memory_graph)"

definition fs_ex :: "string \<Rightarrow> unit option" where
  "fs_ex path = (if path = ''map.bin'' then Some () else None)"

definition System_saved :: "int System" where
  "System_saved =
     (System_new STEREO False)
       \<lparr>mpMap := \<lparr>mspKeyFrames = [10, 11, 12], mspMapPoints = [100, 101, 102],
                   mnBigChangeIdx = 0\<rparr>,
        mem := memory_graph\<rparr>"

text \<open>
  The events of the second thread for the landmarks \<open>ps\<close>, and what a caller can
  observe of \<open>LoadMap\<close>: its result, the events and the keyframes installed.
\<close>

fun landmark_events :: "nat list \<Rightarrow> event list" where
  "landmark_events [] = []"
| "landmark_events (p # ps) =
     MP_ComputeDistinctiveDescriptors p # MP_UpdateNormalAndDepth p # landmark_events ps"

definition LoadMap_report ::
    "(error + bool \<times> 'm System) option \<Rightarrow> (error + bool \<times> event list \<times> nat list) option" where
  "LoadMap_report r =
     map_option (map_sum id (\<lambda>(b, s). (b, trace s, mspKeyFrames (mpMap s)))) r"

text \<open>
  A default-constructed matrix, and a continuous matrix of three rows and four columns
  of 4-byte elements (type tag 5, \<open>CV_32F\<close>) whose 48 bytes are 0, 1, ..., 47.
\<close>

definition Mat_empty :: Mat where
  "Mat_empty = \<lparr>mat_rows = 0, mat_cols = 0, mat_type = 0, mat_continuous = True,
                 mat_step = 0, mat_data = []\<rparr>"

definition Mat_3x4 :: Mat where
  "Mat_3x4 = \<lparr>mat_rows = 3, mat_cols = 4, mat_type = 5, mat_continuous = True,
               mat_step = 16, mat_data = map of_nat [0..<48]\<rparr>"

text \<open>
  A continuous matrix of 65536 rows and 65536 columns of one-byte elements (type tag 0,
  \<open>CV_8U\<close>): a buffer of \<open>2^32\<close> bytes, all of them zero.
\<close>

definition zeros :: "nat \<Rightarrow> byte list" where
  "zeros n = replicate n 0"

definition Mat_big :: Mat where
  "Mat_big = \<lparr>mat_rows = 65536, mat_cols = 65536, mat_type = 0, mat_continuous = True,
               mat_step = 65536, mat_data = zeros (65536 * 65536)\<rparr>"

text \<open>The system right after the batch of the example has been decoded.\<close>

definition System_decoded :: "int System" where
  "System_decoded = (System_new STEREO False)\<lparr>mem := memory_graph\<rparr>"

text \<open>
  A decoded batch of one keyframe, 20, that holds the landmark 101 in slot 0 and in
  slot 1.
\<close>

definition memory_dup :: "int memory" where
  "memory_dup =
     \<lparr>kf_at = (\<lambda>_. KeyFrame_default)(20 := KeyFrame_slots 7 False [Some 101, Some 101]),
      mp_at = (\<lambda>_. MapPoint_default)\<rparr>"

definition System_dup :: "int System" where
  "System_dup = (System_new STEREO False)\<lparr>mem := memory_dup\<rparr>"

text \<open>What holds when the wait for the viewer is left.\<close>

definition viewer_post :: "'m world \<Rightarrow> 'm System \<Rightarrow> 'm System \<Rightarrow> bool" where
  "viewer_post w s s' =
     (\<exists>k. trace s' = trace s @ polls (VW_isFinished False) 5000 k @ [VW_isFinished True])"

text \<open>
  The state in which \<open>Shutdown\<close> leaves a new system with a viewer, in the world that
  settles at time 9.
\<close>

definition System_shut :: "int System" where
  "System_shut =
     (System_new STEREO True)
       \<lparr>now := 13,
        trace := [LM_RequestFinish, LC_RequestFinish, VW_RequestFinish,
                  VW_isFinished False, Usleep 5000, VW_isFinished False, Usleep 5000,
                  VW_isFinished False, Usleep 5000, VW_isFinished True,
                  LM_isFinished True, LC_isFinished True, LC_isRunningGBA False]\<rparr>"

section \<open>Properties of MapChanged\<close>

lemma MapChanged_result:
  "MapChanged n s = (n < mnBigChangeIdx (mpMap s), max n (mnBigChangeIdx (mpMap s)))"
  by (simp add: MapChanged_def GetLastBigChangeIdx_def Let_def max_def)

text \<open>
  C10. \<open>MapChanged\<close> answers true exactly when the store's big-change index is above
  the remembered one, and then remembers it. For a counter that never decreases
  (the readings of two consecutive calls, the first at or above the remembered value)
  the second call answers true iff the index has strictly increased since the first.
  The remembered value is the process-wide static, so after a call through one
  instance has consumed an index, a call through any other instance whose store's
  index is not above it answers false.
\<close>

theorem MapChanged_static_shared:
  "fst (MapChanged n s) = (n < mnBigChangeIdx (mpMap s))
   \<and> snd (MapChanged n s) = max n (mnBigChangeIdx (mpMap s))
   \<and> (n \<le> mnBigChangeIdx (mpMap s0) \<and> mnBigChangeIdx (mpMap s0) \<le> mnBigChangeIdx (mpMap s1) \<longrightarrow>
        fst (MapChanged (snd (MapChanged n s0)) s1)
          = (mnBigChangeIdx (mpMap s0) < mnBigChangeIdx (mpMap s1)))
   \<and> (fst (MapChanged n sA) \<and> mnBigChangeIdx (mpMap sB) \<le> mnBigChangeIdx (mpMap sA) \<longrightarrow>
        \<not> fst (MapChanged (snd (MapChanged n sA)) sB))"
  by (simp add: MapChanged_result max_def)

theorem MapChanged_static_shared_witness:
  "fst (MapChanged 0 (System_at_idx 2 :: int System))
   \<and> \<not> fst (MapChanged (snd (MapChanged 0 (System_at_idx 2 :: int System)))
              (System_at_idx 1 :: int System))
   \<and> fst (MapChanged (snd (MapChanged 0 (System_at_idx 2 :: int System)))
            (System_at_idx 3 :: int System))"
proof -
  let ?A = "System_at_idx 2 :: int System"
  let ?B = "System_at_idx 1 :: int System"
  let ?C = "System_at_idx 3 :: int System"
  have idx: "mnBigChangeIdx (mpMap ?A) = 2" "mnBigChangeIdx (mpMap ?B) = 1"
    "mnBigChangeIdx (mpMap ?C) = 3"
    by (simp_all add: System_at_idx_def)
  note t = MapChanged_static_shared [of 0 ?A ?A ?C ?A ?B]
  from t have a: "fst (MapChanged 0 ?A) = ((0::int) < mnBigChangeIdx (mpMap ?A))"
    by (rule conjunct1)
  from t have c: "(0::int) \<le> mnBigChangeIdx (mpMap ?A)
        \<and> mnBigChangeIdx (mpMap ?A) \<le> mnBigChangeIdx (mpMap ?C) \<longrightarrow>
      fst (MapChanged (snd (MapChanged 0 ?A)) ?C)
        = (mnBigChangeIdx (mpMap ?A) < mnBigChangeIdx (mpMap ?C))"
    by (rule conjunct2 [THEN conjunct2, THEN conjunct1])
  from t have d: "fst (MapChanged 0 ?A)
        \<and> mnBigChangeIdx (mpMap ?B) \<le> mnBigChangeIdx (mpMap ?A) \<longrightarrow>
      \<not> fst (MapChanged (snd (MapChanged 0 ?A)) ?B)"
    by (rule conjunct2 [THEN conjunct2, THEN conjunct2])
  have a': "fst (MapChanged 0 ?A)" using a by (simp add: idx)
  have d': "\<not> fst (MapChanged (snd (MapChanged 0 ?A)) ?B)" using d a' by (simp add: idx)
  have c': "fst (MapChanged (snd (MapChanged 0 ?A)) ?C)" using c by (simp add: idx)
  show ?thesis using a' d' c' by blast
qed

section \<open>Events and polling loops\<close>

lemma emit_simps [simp]:
  "now (emit e s) = Suc (now s)" "trace (emit e s) = trace s @ [e]"
  "mSensor (emit e s) = mSensor s" "mpViewer (emit e s) = mpViewer s"
  "mbReset (emit e s) = mbReset s"
  "mbActivateLocalizationMode (emit e s) = mbActivateLocalizationMode s"
  "mbDeactivateLocalizationMode (emit e s) = mbDeactivateLocalizationMode s"
  "mpMap (emit e s) = mpMap s" "mem (emit e s) = mem s"
  "mpKeyFrameDatabase (emit e s) = mpKeyFrameDatabase s"
  "mpTracker (emit e s) = mpTracker s" "mTrackingState (emit e s) = mTrackingState s"
  by (simp_all add: emit_def)

lemma usleep_simps [simp]:
  "now (usleep us s) = Suc (now s)" "trace (usleep us s) = trace s @ [Usleep us]"
  "mSensor (usleep us s) = mSensor s" "mpViewer (usleep us s) = mpViewer s"
  "mbReset (usleep us s) = mbReset s"
  "mbActivateLocalizationMode (usleep us s) = mbActivateLocalizationMode s"
  "mbDeactivateLocalizationMode (usleep us s) = mbDeactivateLocalizationMode s"
  "mpMap (usleep us s) = mpMap s" "mem (usleep us s) = mem s"
  "mpKeyFrameDatabase (usleep us s) = mpKeyFrameDatabase s"
  by (simp_all add: usleep_def)

text \<open>
  A flag that holds from some time on is seen by a loop that polls every other tick:
  there is a first poll that is answered yes.
\<close>

lemma first_yes:
  assumes "\<forall>t\<ge>T. f (t::nat)"
  shows "\<exists>k. (\<forall>j<k. \<not> f (n + 2 * j)) \<and> f (n + 2 * k)"
proof -
  have ex: "\<exists>k. f (n + 2 * k)"
  proof
    show "f (n + 2 * T)" using assms by simp
  qed
  define k where "k = (LEAST k. f (n + 2 * k))"
  have "f (n + 2 * k)" unfolding k_def using ex by (rule LeastI_ex)
  moreover have "\<forall>j<k. \<not> f (n + 2 * j)" unfolding k_def using not_less_Least by blast
  ultimately show ?thesis by blast
qed

lemma wait_isStopped_polls:
  "\<forall>j<k. \<not> lm_stopped_at w (now s + 2 * j) \<Longrightarrow> lm_stopped_at w (now s + 2 * k) \<Longrightarrow>
   wait_isStopped w s =
     Some (s\<lparr>now := now s + 2 * k + 1,
            trace := trace s @ polls (LM_isStopped False) 1000 k @ [LM_isStopped True]\<rparr>)"
proof (induction k arbitrary: s)
  case 0
  then show ?case by (subst wait_isStopped.simps) (simp add: emit_def)
next
  case (Suc k)
  let ?s = "usleep 1000 (emit (LM_isStopped False) s)"
  have n: "now ?s = now s + 2" by simp
  have a: "\<forall>j<k. \<not> lm_stopped_at w (now ?s + 2 * j)"
  proof (intro allI impI)
    fix j assume "j < k"
    then have "\<not> lm_stopped_at w (now s + 2 * Suc j)" using Suc.prems(1) by blast
    then show "\<not> lm_stopped_at w (now ?s + 2 * j)" by (simp add: n)
  qed
  have b: "lm_stopped_at w (now ?s + 2 * k)" using Suc.prems(2) by (simp add: n)
  have f: "\<not> lm_stopped_at w (now s)" using Suc.prems(1) by force
  show ?case
    by (subst wait_isStopped.simps)
       (simp add: f Suc.IH [OF a b], simp add: usleep_def emit_def)
qed

lemma wait_viewer_polls:
  "\<forall>j<k. \<not> vw_finished_at w (now s + 2 * j) \<Longrightarrow> vw_finished_at w (now s + 2 * k) \<Longrightarrow>
   wait_viewer_isFinished w s =
     Some (s\<lparr>now := now s + 2 * k + 1,
            trace := trace s @ polls (VW_isFinished False) 5000 k @ [VW_isFinished True]\<rparr>)"
proof (induction k arbitrary: s)
  case 0
  then show ?case by (subst wait_viewer_isFinished.simps) (simp add: emit_def)
next
  case (Suc k)
  let ?s = "usleep 5000 (emit (VW_isFinished False) s)"
  have n: "now ?s = now s + 2" by simp
  have a: "\<forall>j<k. \<not> vw_finished_at w (now ?s + 2 * j)"
  proof (intro allI impI)
    fix j assume "j < k"
    then have "\<not> vw_finished_at w (now s + 2 * Suc j)" using Suc.prems(1) by blast
    then show "\<not> vw_finished_at w (now ?s + 2 * j)" by (simp add: n)
  qed
  have b: "vw_finished_at w (now ?s + 2 * k)" using Suc.prems(2) by (simp add: n)
  have f: "\<not> vw_finished_at w (now s)" using Suc.prems(1) by force
  show ?case
    by (subst wait_viewer_isFinished.simps)
       (simp add: f Suc.IH [OF a b], simp add: usleep_def emit_def)
qed

lemma wait_is_finished_polls:
  "\<forall>j<k. \<not> is_finished_seen_at w (now s + 2 * j) \<Longrightarrow> is_finished_seen_at w (now s + 2 * k) \<Longrightarrow>
   wait_is_finished w s =
     Some (s\<lparr>now := now s + 2 * k + 1,
            trace := trace s @ polls (Read_is_finished False) 30000 k @ [Read_is_finished True]\<rparr>)"
proof (induction k arbitrary: s)
  case 0
  then show ?case by (subst wait_is_finished.simps) (simp add: emit_def)
next
  case (Suc k)
  let ?s = "usleep 30000 (emit (Read_is_finished False) s)"
  have n: "now ?s = now s + 2" by simp
  have a: "\<forall>j<k. \<not> is_finished_seen_at w (now ?s + 2 * j)"
  proof (intro allI impI)
    fix j assume "j < k"
    then have "\<not> is_finished_seen_at w (now s + 2 * Suc j)" using Suc.prems(1) by blast
    then show "\<not> is_finished_seen_at w (now ?s + 2 * j)" by (simp add: n)
  qed
  have b: "is_finished_seen_at w (now ?s + 2 * k)" using Suc.prems(2) by (simp add: n)
  have f: "\<not> is_finished_seen_at w (now s)" using Suc.prems(1) by force
  show ?case
    by (subst wait_is_finished.simps)
       (simp add: f Suc.IH [OF a b], simp add: usleep_def emit_def)
qed

section \<open>Shutdown: order of events and return\<close>

lemma threads_post_step:
  "threads_post w (usleep us s1) s' \<Longrightarrow> trace s1 = trace s @ es \<Longrightarrow> list_all is_worker_wait es \<Longrightarrow>
   mpViewer s1 = mpViewer s \<Longrightarrow> threads_post w s s'"
  unfolding threads_post_def
  apply (elim exE conjE)
  subgoal for pre
    apply (rule exI [of _ "es @ Usleep us # pre"])
    apply simp
    done
  done

lemma wait_threads_stopped_post:
  assumes "wait_threads_stopped w s = Some s'"
  shows "threads_post w s s'"
  using assms
proof (rule wait_threads_stopped.raw_induct [rotated 1, where P = threads_post])
  fix f :: "'a world \<Rightarrow> 'a System \<Rightarrow> 'a System option"
    and w :: "'a world" and s wa :: "'a System"
  assume IH: "\<And>s b y. f s b = Some y \<Longrightarrow> threads_post s b y"
  assume eq: "(if \<not> lm_finished_at w (now s)
      then f w (usleep 5000 (emit (LM_isFinished False) s))
      else if \<not> lc_finished_at w (Suc (now s))
           then f w (usleep 5000 (emit (LC_isFinished False) (emit (LM_isFinished True) s)))
           else if lc_gba_at w (Suc (Suc (now s)))
                then f w (usleep 5000 (emit (LC_isRunningGBA True)
                          (emit (LC_isFinished True) (emit (LM_isFinished True) s))))
                else Some (emit (LC_isRunningGBA False)
                        (emit (LC_isFinished True) (emit (LM_isFinished True) s)))) = Some wa"
  consider (a) "\<not> lm_finished_at w (now s)"
    | (b) "lm_finished_at w (now s)" "\<not> lc_finished_at w (Suc (now s))"
    | (c) "lm_finished_at w (now s)" "lc_finished_at w (Suc (now s))" "lc_gba_at w (Suc (Suc (now s)))"
    | (d) "lm_finished_at w (now s)" "lc_finished_at w (Suc (now s))" "\<not> lc_gba_at w (Suc (Suc (now s)))"
    by blast
  then show "threads_post w s wa"
  proof cases
    case a
    with eq have "f w (usleep 5000 (emit (LM_isFinished False) s)) = Some wa" by simp
    from IH [OF this] show ?thesis
      by (rule threads_post_step [where es = "[LM_isFinished False]"]) simp_all
  next
    case b
    with eq have "f w (usleep 5000 (emit (LC_isFinished False) (emit (LM_isFinished True) s))) = Some wa"
      by simp
    from IH [OF this] show ?thesis
      by (rule threads_post_step [where es = "[LM_isFinished True, LC_isFinished False]"]) simp_all
  next
    case c
    with eq have "f w (usleep 5000 (emit (LC_isRunningGBA True)
                          (emit (LC_isFinished True) (emit (LM_isFinished True) s)))) = Some wa"
      by simp
    from IH [OF this] show ?thesis
      by (rule threads_post_step
            [where es = "[LM_isFinished True, LC_isFinished True, LC_isRunningGBA True]"]) simp_all
  next
    case d
    with eq have wa: "wa = emit (LC_isRunningGBA False)
                        (emit (LC_isFinished True) (emit (LM_isFinished True) s))" by simp
    show ?thesis unfolding threads_post_def
      by (rule exI [of _ "[]"]) (simp add: wa workers_done_def d)
  qed
qed

lemma wait_threads_stopped_returns:
  assumes "\<forall>t\<ge>T. lm_finished_at w t \<and> lc_finished_at w t \<and> \<not> lc_gba_at w t"
  shows "\<exists>s'. wait_threads_stopped w s = Some s'"
proof (induction "T - now s" arbitrary: s rule: less_induct)
  case less
  show ?case
  proof (cases "T \<le> now s")
    case True
    then have "lm_finished_at w (now s)" "lc_finished_at w (Suc (now s))"
        "\<not> lc_gba_at w (Suc (Suc (now s)))"
      using assms by simp_all
    then show ?thesis by (subst wait_threads_stopped.simps) simp
  next
    case False
    have step: "\<And>s1. now s < now s1 \<Longrightarrow> \<exists>s'. wait_threads_stopped w s1 = Some s'"
    proof -
      fix s1 :: "'a System" assume "now s < now s1"
      with False have "T - now s1 < T - now s" by arith
      then show "\<exists>s'. wait_threads_stopped w s1 = Some s'" by (rule less)
    qed
    show ?thesis
      by (subst wait_threads_stopped.simps) (simp add: step)
  qed
qed

lemma Shutdown_trace:
  assumes st: "settled w T"
  shows "\<exists>s1 k pre. Shutdown w s = Some s1
     \<and> trace s1 = trace s @ [LM_RequestFinish, LC_RequestFinish]
          @ (if mpViewer s
             then VW_RequestFinish # polls (VW_isFinished False) 5000 k @ [VW_isFinished True]
             else [])
          @ pre @ workers_done
     \<and> list_all is_worker_wait pre"
proof -
  let ?s0 = "emit LC_RequestFinish (emit LM_RequestFinish s)"
  have wk: "\<forall>t\<ge>T. lm_finished_at w t \<and> lc_finished_at w t \<and> \<not> lc_gba_at w t"
    using st by (simp add: settled_def)
  show ?thesis
  proof (cases "mpViewer s")
    case False
    obtain s1 where r: "wait_threads_stopped w ?s0 = Some s1"
      using wait_threads_stopped_returns [OF wk] by blast
    from wait_threads_stopped_post [OF r] obtain pre where
      p: "trace s1 = trace ?s0 @ pre @ workers_done" "list_all is_worker_wait pre"
      by (auto simp: threads_post_def)
    have "Shutdown w s = Some s1" using False r by (simp add: Shutdown_def Let_def)
    then show ?thesis using p False by auto
  next
    case True
    let ?sv = "emit VW_RequestFinish ?s0"
    have "\<forall>t\<ge>T. vw_finished_at w t" using st by (simp add: settled_def)
    from first_yes [OF this, of "now ?sv"] obtain k where
      k: "\<forall>j<k. \<not> vw_finished_at w (now ?sv + 2 * j)" "vw_finished_at w (now ?sv + 2 * k)"
      by blast
    let ?s2 = "?sv\<lparr>now := now ?sv + 2 * k + 1,
            trace := trace ?sv @ polls (VW_isFinished False) 5000 k @ [VW_isFinished True]\<rparr>"
    have v: "wait_viewer_isFinished w ?sv = Some ?s2" using k by (rule wait_viewer_polls)
    obtain s1 where r: "wait_threads_stopped w ?s2 = Some s1"
      using wait_threads_stopped_returns [OF wk] by blast
    from wait_threads_stopped_post [OF r] obtain pre where
      p: "trace s1 = trace ?s2 @ pre @ workers_done" "list_all is_worker_wait pre"
      by (auto simp: threads_post_def)
    have "Shutdown w s = Some s1" using True r v by (simp add: Shutdown_def Let_def)
    moreover have "trace s1 = trace s @ [LM_RequestFinish, LC_RequestFinish]
          @ (VW_RequestFinish # polls (VW_isFinished False) 5000 k @ [VW_isFinished True])
          @ pre @ workers_done" using p(1) by simp
    ultimately show ?thesis using p(2) True by auto
  qed
qed

lemma wait_viewer_post:
  assumes "wait_viewer_isFinished w s = Some s'"
  shows "viewer_post w s s'"
  using assms
proof (rule wait_viewer_isFinished.raw_induct [rotated 1, where P = viewer_post])
  fix f :: "'a world \<Rightarrow> 'a System \<Rightarrow> 'a System option"
    and w :: "'a world" and s wa :: "'a System"
  assume IH: "\<And>s b y. f s b = Some y \<Longrightarrow> viewer_post s b y"
  assume eq: "(if vw_finished_at w (now s) then Some (emit (VW_isFinished True) s)
      else f w (usleep 5000 (emit (VW_isFinished False) s))) = Some wa"
  show "viewer_post w s wa"
  proof (cases "vw_finished_at w (now s)")
    case True
    with eq have "wa = emit (VW_isFinished True) s" by simp
    then show ?thesis unfolding viewer_post_def by (intro exI [of _ 0]) simp
  next
    case False
    with eq have "f w (usleep 5000 (emit (VW_isFinished False) s)) = Some wa" by simp
    from IH [OF this] obtain k where
      "trace wa = trace (usleep 5000 (emit (VW_isFinished False) s))
                    @ polls (VW_isFinished False) 5000 k @ [VW_isFinished True]"
      unfolding viewer_post_def by blast
    then show ?thesis unfolding viewer_post_def by (intro exI [of _ "Suc k"]) simp
  qed
qed

lemma Shutdown_post:
  assumes r: "Shutdown w s = Some s1"
  shows "\<exists>k pre. trace s1 = trace s @ [LM_RequestFinish, LC_RequestFinish]
          @ (if mpViewer s
             then VW_RequestFinish # polls (VW_isFinished False) 5000 k @ [VW_isFinished True]
             else [])
          @ pre @ workers_done
     \<and> list_all is_worker_wait pre
     \<and> 3 \<le> now s1 \<and> lm_finished_at w (now s1 - 3) \<and> lc_finished_at w (now s1 - 2)
     \<and> \<not> lc_gba_at w (now s1 - 1)"
proof -
  let ?s0 = "emit LC_RequestFinish (emit LM_RequestFinish s)"
  show ?thesis
  proof (cases "mpViewer s")
    case False
    with r have "wait_threads_stopped w ?s0 = Some s1" by (simp add: Shutdown_def Let_def)
    from wait_threads_stopped_post [OF this] obtain pre where
      "trace s1 = trace ?s0 @ pre @ workers_done" "list_all is_worker_wait pre"
      "3 \<le> now s1" "lm_finished_at w (now s1 - 3)" "lc_finished_at w (now s1 - 2)"
      "\<not> lc_gba_at w (now s1 - 1)"
      unfolding threads_post_def by blast
    then show ?thesis using False by auto
  next
    case True
    with r obtain s2 where v: "wait_viewer_isFinished w (emit VW_RequestFinish ?s0) = Some s2"
      and t: "wait_threads_stopped w s2 = Some s1"
      by (auto simp: Shutdown_def Let_def split: option.splits)
    from wait_viewer_post [OF v] obtain k where
      k: "trace s2 = trace (emit VW_RequestFinish ?s0)
                      @ polls (VW_isFinished False) 5000 k @ [VW_isFinished True]"
      unfolding viewer_post_def by blast
    from wait_threads_stopped_post [OF t] obtain pre where
      p: "trace s1 = trace s2 @ pre @ workers_done" "list_all is_worker_wait pre"
      "3 \<le> now s1" "lm_finished_at w (now s1 - 3)" "lc_finished_at w (now s1 - 2)"
      "\<not> lc_gba_at w (now s1 - 1)"
      unfolding threads_post_def by blast
    have "trace s1 = trace s @ [LM_RequestFinish, LC_RequestFinish]
          @ (VW_RequestFinish # polls (VW_isFinished False) 5000 k @ [VW_isFinished True])
          @ pre @ workers_done"
      using p(1) k by simp
    then show ?thesis using p(2-) True by auto
  qed
qed

lemma Shutdown_returns:
  assumes st: "settled w T"
  shows "\<exists>s1. Shutdown w s = Some s1"
  using Shutdown_trace [OF st, of s] by blast

lemma Shutdown_example:
  "Shutdown (world_after 9 :: int world) (System_new STEREO True) = Some System_shut"
  by (simp add: Shutdown_def Let_def System_new_def System_shut_def world_after_def
        wait_viewer_isFinished.simps wait_threads_stopped.simps usleep_def emit_def)

text \<open>
  While a global optimisation is reported running, \<open>Shutdown\<close> does not return,
  whatever the workers and the viewer report.
\<close>

lemma Shutdown_waits_for_GBA:
  assumes "\<forall>t. lc_gba_at w t"
  shows "Shutdown w s = None"
proof (cases "Shutdown w s")
  case None
  then show ?thesis .
next
  case (Some s1)
  from Shutdown_post [OF Some] have "\<not> lc_gba_at w (now s1 - 1)" by blast
  with assms show ?thesis by simp
qed

text \<open>
  C2, as amended. Whenever \<open>Shutdown\<close> returns, it has asked both workers to finish,
  then, if there is a viewer, asked the viewer to finish and polled it until it
  reported finished, and only then polled the workers; the last three answers it has
  read are that the local mapper is finished, that the loop closer is finished and
  that no global optimisation runs. In a world that settles (from some time on both
  workers and the viewer report finished and no global optimisation is reported
  running) \<open>Shutdown\<close> returns, and a second call returns as well.
\<close>

theorem Shutdown_viewer_then_workers:
  "(Shutdown w s = Some s1 \<longrightarrow>
      (\<exists>k pre. trace s1 = trace s @ [LM_RequestFinish, LC_RequestFinish]
          @ (if mpViewer s
             then VW_RequestFinish # polls (VW_isFinished False) 5000 k @ [VW_isFinished True]
             else [])
          @ pre @ workers_done
        \<and> list_all is_worker_wait pre
        \<and> 3 \<le> now s1 \<and> lm_finished_at w (now s1 - 3) \<and> lc_finished_at w (now s1 - 2)
        \<and> \<not> lc_gba_at w (now s1 - 1)))
   \<and> (settled w T \<longrightarrow> (\<exists>s2 s3. Shutdown w s = Some s2 \<and> Shutdown w s2 = Some s3))"
proof (intro conjI impI)
  assume "Shutdown w s = Some s1"
  then show "\<exists>k pre. trace s1 = trace s @ [LM_RequestFinish, LC_RequestFinish]
          @ (if mpViewer s
             then VW_RequestFinish # polls (VW_isFinished False) 5000 k @ [VW_isFinished True]
             else [])
          @ pre @ workers_done
        \<and> list_all is_worker_wait pre
        \<and> 3 \<le> now s1 \<and> lm_finished_at w (now s1 - 3) \<and> lc_finished_at w (now s1 - 2)
        \<and> \<not> lc_gba_at w (now s1 - 1)"
    by (rule Shutdown_post)
next
  assume st: "settled w T"
  from Shutdown_returns [OF st, of s] obtain s2 where a: "Shutdown w s = Some s2" by blast
  from Shutdown_returns [OF st, of s2] obtain s3 where "Shutdown w s2 = Some s3" by blast
  with a show "\<exists>s2 s3. Shutdown w s = Some s2 \<and> Shutdown w s2 = Some s3" by blast
qed

theorem Shutdown_viewer_then_workers_witness:
  "Shutdown (world_after 9 :: int world) (System_new STEREO True) = Some System_shut
   \<and> (\<exists>k pre. trace System_shut = trace (System_new STEREO True :: int System)
          @ [LM_RequestFinish, LC_RequestFinish]
          @ (if mpViewer (System_new STEREO True :: int System)
             then VW_RequestFinish # polls (VW_isFinished False) 5000 k @ [VW_isFinished True]
             else [])
          @ pre @ workers_done
        \<and> list_all is_worker_wait pre
        \<and> 3 \<le> now System_shut \<and> lm_finished_at (world_after 9 :: int world) (now System_shut - 3)
        \<and> lc_finished_at (world_after 9 :: int world) (now System_shut - 2)
        \<and> \<not> lc_gba_at (world_after 9 :: int world) (now System_shut - 1))
   \<and> settled (world_after 9 :: int world) 9
   \<and> (\<exists>s2 s3. Shutdown (world_after 9 :: int world) (System_new STEREO True) = Some s2
         \<and> Shutdown (world_after 9) s2 = Some s3)"
proof -
  have h: "settled (world_after 9 :: int world) 9"
    by (simp add: settled_def world_after_def)
  note t = Shutdown_viewer_then_workers
    [of "world_after 9 :: int world" "System_new STEREO True" System_shut 9]
  show ?thesis
    by (intro conjI Shutdown_example h t [THEN conjunct1, rule_format, OF Shutdown_example]
          t [THEN conjunct2, rule_format, OF h])
qed

text \<open>
  C2, as stated, fails: with a viewer present the request to the viewer and the wait for
  it come before the first question to a worker, not after the workers' wait has ended.
\<close>

theorem Shutdown_viewer_first_counterexample:
  "map_option trace (Shutdown (world_after 0 :: int world) (System_new STEREO True))
     = Some [LM_RequestFinish, LC_RequestFinish, VW_RequestFinish, VW_isFinished True,
             LM_isFinished True, LC_isFinished True, LC_isRunningGBA False]
   \<and> \<not> viewer_after_workers
         [LM_RequestFinish, LC_RequestFinish, VW_RequestFinish, VW_isFinished True,
          LM_isFinished True, LC_isFinished True, LC_isRunningGBA False]"
proof
  show "map_option trace (Shutdown (world_after 0 :: int world) (System_new STEREO True))
     = Some [LM_RequestFinish, LC_RequestFinish, VW_RequestFinish, VW_isFinished True,
             LM_isFinished True, LC_isFinished True, LC_isRunningGBA False]"
    by (simp add: Shutdown_def Let_def System_new_def world_after_def
          wait_viewer_isFinished.simps wait_threads_stopped.simps)
  show "\<not> viewer_after_workers
         [LM_RequestFinish, LC_RequestFinish, VW_RequestFinish, VW_isFinished True,
          LM_isFinished True, LC_isFinished True, LC_isRunningGBA False]"
  proof
    assume "viewer_after_workers
         [LM_RequestFinish, LC_RequestFinish, VW_RequestFinish, VW_isFinished True,
          LM_isFinished True, LC_isFinished True, LC_isRunningGBA False]"
    from this [unfolded viewer_after_workers_def, rule_format, of 2]
    show False by simp
  qed
qed

section \<open>Mode change: order of events\<close>

text \<open>
  With activation pending and a local mapper that answers no \<open>k\<close> times and then
  yes, each tracking call asks the mapper to stop, polls it, informs the tracker and
  clears the flag, in this order. \<open>TrackStereo\<close> and \<open>TrackRGBD\<close> tell the tracker
  \<open>true\<close>; \<open>TrackMonocular\<close> tells it \<open>false\<close>.
\<close>

lemma TrackStereo_activate:
  assumes sens: "mSensor s = STEREO" and act: "mbActivateLocalizationMode s"
    and no: "\<forall>j<k. \<not> lm_stopped_at w (Suc (now s) + 2 * j)"
    and yes: "lm_stopped_at w (Suc (now s) + 2 * k)"
  shows "\<exists>Tcw s' rest. TrackStereo w s = Some (Inr (Tcw, s'))
     \<and> trace s' = trace s @ LM_RequestStop # polls (LM_isStopped False) 1000 k
                     @ [LM_isStopped True, TR_InformOnlyTracking True] @ rest
     \<and> TR_InformOnlyTracking True \<notin> set rest
     \<and> \<not> mbActivateLocalizationMode s'"
proof -
  let ?s0 = "emit LM_RequestStop s"
  have n: "now ?s0 = Suc (now s)" by simp
  have w: "wait_isStopped w ?s0 =
     Some (?s0\<lparr>now := now ?s0 + 2 * k + 1,
            trace := trace ?s0 @ polls (LM_isStopped False) 1000 k @ [LM_isStopped True]\<rparr>)"
    using no yes by (intro wait_isStopped_polls) simp_all
  show ?thesis
    using sens act
    by (simp add: TrackStereo_def w Let_def)
qed

lemma TrackRGBD_activate:
  assumes sens: "mSensor s = RGBD" and act: "mbActivateLocalizationMode s"
    and no: "\<forall>j<k. \<not> lm_stopped_at w (Suc (now s) + 2 * j)"
    and yes: "lm_stopped_at w (Suc (now s) + 2 * k)"
  shows "\<exists>Tcw s' rest. TrackRGBD w s = Some (Inr (Tcw, s'))
     \<and> trace s' = trace s @ LM_RequestStop # polls (LM_isStopped False) 1000 k
                     @ [LM_isStopped True, TR_InformOnlyTracking True] @ rest
     \<and> TR_InformOnlyTracking True \<notin> set rest
     \<and> \<not> mbActivateLocalizationMode s'"
proof -
  let ?s0 = "emit LM_RequestStop s"
  have n: "now ?s0 = Suc (now s)" by simp
  have w: "wait_isStopped w ?s0 =
     Some (?s0\<lparr>now := now ?s0 + 2 * k + 1,
            trace := trace ?s0 @ polls (LM_isStopped False) 1000 k @ [LM_isStopped True]\<rparr>)"
    using no yes by (intro wait_isStopped_polls) simp_all
  show ?thesis
    using sens act
    by (simp add: TrackRGBD_def w Let_def)
qed

lemma TrackMonocular_activate:
  assumes sens: "mSensor s = MONOCULAR" and act: "mbActivateLocalizationMode s"
    and no: "\<forall>j<k. \<not> lm_stopped_at w (Suc (now s) + 2 * j)"
    and yes: "lm_stopped_at w (Suc (now s) + 2 * k)"
  shows "\<exists>Tcw s' rest. TrackMonocular w s = Some (Inr (Tcw, s'))
     \<and> trace s' = trace s @ LM_RequestStop # polls (LM_isStopped False) 1000 k
                     @ [LM_isStopped True, TR_InformOnlyTracking False] @ rest
     \<and> TR_InformOnlyTracking True \<notin> set rest
     \<and> \<not> mbActivateLocalizationMode s'"
proof -
  let ?s0 = "emit LM_RequestStop s"
  have n: "now ?s0 = Suc (now s)" by simp
  have w: "wait_isStopped w ?s0 =
     Some (?s0\<lparr>now := now ?s0 + 2 * k + 1,
            trace := trace ?s0 @ polls (LM_isStopped False) 1000 k @ [LM_isStopped True]\<rparr>)"
    using no yes by (intro wait_isStopped_polls) simp_all
  show ?thesis
    using sens act
    by (simp add: TrackMonocular_def w Let_def)
qed

text \<open>
  C1. With activation pending, \<open>TrackStereo\<close> and \<open>TrackRGBD\<close> set only-tracking
  to true after the mapper has stopped; \<open>TrackMonocular\<close> does not: after
  \<open>ActivateLocalizationMode\<close>, one monocular tracking call asks the mapper to stop,
  sees it stopped at the second poll and then informs the tracker with \<open>false\<close>, so
  the tracker is never told that it is localization-only.
\<close>

theorem TrackMonocular_informs_false:
  "map_option (map_sum id (trace \<circ> snd))
     (TrackMonocular (world_after 3 :: int world)
        (ActivateLocalizationMode (System_new MONOCULAR False)))
   = Some (Inr [LM_RequestStop, LM_isStopped False, Usleep 1000, LM_isStopped True,
                TR_InformOnlyTracking False, TR_GrabImageMonocular])"
  by (simp add: TrackMonocular_def ActivateLocalizationMode_def System_new_def
        world_after_def wait_isStopped.simps usleep_def Let_def)

text \<open>The same call on the two sibling paths.\<close>

lemma TrackStereo_informs_true:
  "map_option (map_sum id (trace \<circ> snd))
     (TrackStereo (world_after 3 :: int world)
        (ActivateLocalizationMode (System_new STEREO False)))
   = Some (Inr [LM_RequestStop, LM_isStopped False, Usleep 1000, LM_isStopped True,
                TR_InformOnlyTracking True, TR_GrabImageStereo])"
  by (simp add: TrackStereo_def ActivateLocalizationMode_def System_new_def
        world_after_def wait_isStopped.simps usleep_def Let_def)

lemma TrackRGBD_informs_true:
  "map_option (map_sum id (trace \<circ> snd))
     (TrackRGBD (world_after 3 :: int world)
        (ActivateLocalizationMode (System_new RGBD False)))
   = Some (Inr [LM_RequestStop, LM_isStopped False, Usleep 1000, LM_isStopped True,
                TR_InformOnlyTracking True, TR_GrabImageRGBD])"
  by (simp add: TrackRGBD_def ActivateLocalizationMode_def System_new_def
        world_after_def wait_isStopped.simps usleep_def Let_def)

section \<open>Trajectory export: the walk up the spanning tree\<close>

lemma walk_parents_reaches:
  "ancestor h n (Some p) = Some q \<Longrightarrow> \<not> isBad (kf_at h q) \<Longrightarrow>
   \<forall>i<n. \<exists>r. ancestor h i (Some p) = Some r \<and> isBad (kf_at h r) \<Longrightarrow>
   walk_parents h Trw (Some p) = Some (Inr (hops_product h n Trw (Some p), q))"
proof (induction n arbitrary: p Trw)
  case 0
  then show ?case by (subst walk_parents.simps) simp
next
  case (Suc n)
  from Suc.prems(3) have bad: "isBad (kf_at h p)" by force
  from Suc.prems(1) obtain p' where par: "GetParent (kf_at h p) = Some p'"
    by (cases "GetParent (kf_at h p)"; cases n; simp)
  have a: "ancestor h n (Some p') = Some q" using Suc.prems(1) par by simp
  have b: "\<forall>i<n. \<exists>r. ancestor h i (Some p') = Some r \<and> isBad (kf_at h r)"
  proof (intro allI impI)
    fix i assume "i < n"
    then have "\<exists>r. ancestor h (Suc i) (Some p) = Some r \<and> isBad (kf_at h r)"
      using Suc.prems(3) by (meson Suc_less_eq)
    then show "\<exists>r. ancestor h i (Some p') = Some r \<and> isBad (kf_at h r)"
      using par by simp
  qed
  show ?case
    by (subst walk_parents.simps) (simp add: bad par Suc.IH [OF a Suc.prems(2) b])
qed

lemma walk_parents_Some_ends:
  assumes "walk_parents h Trw pKF = Some y"
  shows "\<exists>n. ancestor h n pKF = None \<or> (\<exists>r. ancestor h n pKF = Some r \<and> \<not> isBad (kf_at h r))"
  using assms
proof (rule walk_parents.raw_induct [rotated 1,
    where P = "\<lambda>h Trw pKF y. \<exists>n. ancestor h n pKF = None
                 \<or> (\<exists>r. ancestor h n pKF = Some r \<and> \<not> isBad (kf_at h r))"])
  fix f :: "'a memory \<Rightarrow> 'a \<Rightarrow> nat option \<Rightarrow> (error + 'a \<times> nat) option"
    and h :: "'a memory" and Trw :: 'a and pKF :: "nat option" and y
  assume IH: "\<And>h Trw pKF y. f h Trw pKF = Some y \<Longrightarrow>
     \<exists>n. ancestor h n pKF = None \<or> (\<exists>r. ancestor h n pKF = Some r \<and> \<not> isBad (kf_at h r))"
  assume eq: "(case pKF of None \<Rightarrow> Some (Inl NullDeref)
      | Some p \<Rightarrow> if isBad (kf_at h p) then f h (Trw * mTcp (kf_at h p)) (GetParent (kf_at h p))
                  else Some (Inr (Trw, p))) = Some y"
  show "\<exists>n. ancestor h n pKF = None \<or> (\<exists>r. ancestor h n pKF = Some r \<and> \<not> isBad (kf_at h r))"
  proof (cases pKF)
    case None
    then have "ancestor h 0 pKF = None" by simp
    then show ?thesis by blast
  next
    case (Some p)
    show ?thesis
    proof (cases "isBad (kf_at h p)")
      case False
      then have "ancestor h 0 pKF = Some p \<and> \<not> isBad (kf_at h p)" using Some by simp
      then show ?thesis by blast
    next
      case True
      with eq Some have "f h (Trw * mTcp (kf_at h p)) (GetParent (kf_at h p)) = Some y" by simp
      from IH [OF this] obtain n where
        "ancestor h n (GetParent (kf_at h p)) = None
          \<or> (\<exists>r. ancestor h n (GetParent (kf_at h p)) = Some r \<and> \<not> isBad (kf_at h r))" by blast
      then have "ancestor h (Suc n) pKF = None
          \<or> (\<exists>r. ancestor h (Suc n) pKF = Some r \<and> \<not> isBad (kf_at h r))"
        using Some by simp
      then show ?thesis by blast
    qed
  qed
qed

lemma walk_parents_never_returns:
  "\<forall>n. \<exists>r. ancestor h n pKF = Some r \<and> isBad (kf_at h r) \<Longrightarrow> walk_parents h Trw pKF = None"
proof (rule ccontr)
  assume a: "\<forall>n. \<exists>r. ancestor h n pKF = Some r \<and> isBad (kf_at h r)"
  assume "walk_parents h Trw pKF \<noteq> None"
  then obtain y where "walk_parents h Trw pKF = Some y" by blast
  from walk_parents_Some_ends [OF this] obtain n where
    "ancestor h n pKF = None \<or> (\<exists>r. ancestor h n pKF = Some r \<and> \<not> isBad (kf_at h r))" by blast
  with a show False by (metis option.distinct(1) option.inject)
qed

lemma walk_parents_null:
  "ancestor h n pKF = None \<Longrightarrow>
   \<forall>i<n. \<exists>r. ancestor h i pKF = Some r \<and> isBad (kf_at h r) \<Longrightarrow>
   walk_parents h Trw pKF = Some (Inl NullDeref)"
proof (induction n arbitrary: pKF Trw)
  case 0
  then show ?case by (subst walk_parents.simps) simp
next
  case (Suc n)
  from Suc.prems(2) obtain p where p: "pKF = Some p" "isBad (kf_at h p)" by force
  have a: "ancestor h n (GetParent (kf_at h p)) = None" using Suc.prems(1) p by simp
  have b: "\<forall>i<n. \<exists>r. ancestor h i (GetParent (kf_at h p)) = Some r \<and> isBad (kf_at h r)"
  proof (intro allI impI)
    fix i assume "i < n"
    then have "\<exists>r. ancestor h (Suc i) pKF = Some r \<and> isBad (kf_at h r)"
      using Suc.prems(2) by (meson Suc_less_eq)
    then show "\<exists>r. ancestor h i (GetParent (kf_at h p)) = Some r \<and> isBad (kf_at h r)"
      using p by simp
  qed
  show ?case
    by (subst walk_parents.simps) (simp add: p Suc.IH [OF a b])
qed

lemma ancestor_cycle:
  "ancestor memory_ex n (Some 4) = Some 4 \<or> ancestor memory_ex n (Some 4) = Some 5"
  "ancestor memory_ex n (Some 5) = Some 4 \<or> ancestor memory_ex n (Some 5) = Some 5"
  by (induction n) (auto simp: memory_ex_def KeyFrame_ex_def GetParent_def)

lemma cycle_all_bad:
  "\<forall>n. \<exists>r. ancestor memory_ex n (Some 4) = Some r \<and> isBad (kf_at memory_ex r)"
proof
  fix n
  have "isBad (kf_at memory_ex 4)" "isBad (kf_at memory_ex 5)"
    by (simp_all add: memory_ex_def KeyFrame_ex_def isBad_def)
  then show "\<exists>r. ancestor memory_ex n (Some 4) = Some r \<and> isBad (kf_at memory_ex r)"
    using ancestor_cycle(1) [of n] by auto
qed

text \<open>
  C7, as amended. The walk from a bad reference keyframe multiplies the accumulated
  transform by each bad keyframe's \<open>mTcp\<close> and stops at the first keyframe that is not
  bad, when the chain reaches one after \<open>n\<close> hops. The walk has no guard: when every
  ancestor exists and is bad (a cycle) it never returns, and when the chain of bad
  keyframes ends at a keyframe without parent it goes through the null pointer.
\<close>

theorem walk_parents_unguarded:
  "(ancestor h n (Some p) = Some q \<and> \<not> isBad (kf_at h q)
      \<and> (\<forall>i<n. \<exists>r. ancestor h i (Some p) = Some r \<and> isBad (kf_at h r))
    \<longrightarrow> walk_parents h Trw (Some p) = Some (Inr (hops_product h n Trw (Some p), q)))
   \<and> ((\<forall>m. \<exists>r. ancestor h m pKF = Some r \<and> isBad (kf_at h r))
    \<longrightarrow> walk_parents h Trw pKF = None)
   \<and> (ancestor h n' pKF' = None
      \<and> (\<forall>i<n'. \<exists>r. ancestor h i pKF' = Some r \<and> isBad (kf_at h r))
    \<longrightarrow> walk_parents h Trw pKF' = Some (Inl NullDeref))"
  using walk_parents_reaches [of h n p q Trw] walk_parents_never_returns [of h pKF Trw]
    walk_parents_null [of h n' pKF' Trw]
  by blast

theorem walk_parents_unguarded_witness:
  "walk_parents memory_ex 1 (Some 3) = Some (Inr (hops_product memory_ex 2 1 (Some 3), 1))
   \<and> hops_product memory_ex 2 1 (Some 3) = 1 * 3 * 2
   \<and> walk_parents memory_ex 1 (Some 4) = None
   \<and> walk_parents memory_ex 1 (Some 6) = Some (Inl NullDeref)"
proof -
  note t = walk_parents_unguarded [of memory_ex 2 3 1 1 "Some 4" 1 "Some 6"]
  have bad: "isBad (kf_at memory_ex 3)" "isBad (kf_at memory_ex 2)" "\<not> isBad (kf_at memory_ex 1)"
    "isBad (kf_at memory_ex 6)"
    by (simp_all add: memory_ex_def KeyFrame_ex_def isBad_def)
  have anc: "ancestor memory_ex 0 (Some 3) = Some 3" "ancestor memory_ex 1 (Some 3) = Some 2"
    "ancestor memory_ex 2 (Some 3) = Some 1"
    "ancestor memory_ex 0 (Some 6) = Some 6" "ancestor memory_ex 1 (Some 6) = None"
    by (simp_all add: memory_ex_def KeyFrame_ex_def GetParent_def numeral_2_eq_2)
  have h1: "\<forall>i<2. \<exists>r. ancestor memory_ex i (Some 3) = Some r \<and> isBad (kf_at memory_ex r)"
    using anc bad by (auto simp: less_Suc_eq numeral_2_eq_2)
  have h3: "\<forall>i<1. \<exists>r. ancestor memory_ex i (Some 6) = Some r \<and> isBad (kf_at memory_ex r)"
    using anc bad by auto
  have a: "walk_parents memory_ex 1 (Some 3) = Some (Inr (hops_product memory_ex 2 1 (Some 3), 1))"
    using t anc(3) bad(3) h1 by blast
  have b: "walk_parents memory_ex 1 (Some 4) = None"
    using t cycle_all_bad by blast
  have c: "walk_parents memory_ex 1 (Some 6) = Some (Inl NullDeref)"
    using t anc(5) h3 by blast
  have d: "hops_product memory_ex 2 1 (Some 3) = 1 * 3 * 2"
    by (simp add: memory_ex_def KeyFrame_ex_def GetParent_def numeral_2_eq_2)
  show ?thesis using a b c d by blast
qed

text \<open>
  C7, as stated, fails: on a record whose reference keyframe lies on a cycle of bad
  keyframes neither exporter reports anything; the call does not return.
\<close>

theorem SaveTrajectory_cycle_counterexample:
  "SaveTrajectoryTUM (System_traj STEREO 4) = None
   \<and> SaveTrajectoryKITTI (System_traj STEREO 4) = None"
proof -
  have w: "walk_parents memory_ex 1 (Some 4) = None"
    using cycle_all_bad by (rule walk_parents_never_returns)
  show ?thesis
    by (simp add: SaveTrajectoryTUM_def SaveTrajectoryKITTI_def System_traj_def System_new_def
          sort_lId_def GetAllKeyFrames_def w)
qed

section \<open>Trajectory export: lost records\<close>

lemma TUM_frames_lines:
  "TUM_frames h Two f lits lRit lT lbL = Some (Inr f') \<Longrightarrow>
   length lits \<le> length lbL
   \<and> (\<exists>ls. f' = f @ ls \<and> length ls = length (filter Not (take (length lits) lbL)))"
proof (induction h Two f lits lRit lT lbL rule: TUM_frames.induct)
  case (1 h Two f lRit lT lbL)
  then show ?case by simp
next
  case (2 h Two f lit lits pKF lRit t lT lost lbL)
  show ?case
  proof (cases lost)
    case True
    with 2 show ?thesis by simp
  next
    case False
    from "2.prems" False obtain Trw k where
      w: "walk_parents h 1 pKF = Some (Inr (Trw, k))"
      by (auto split: option.splits sum.splits)
    with "2.prems" False have
      "TUM_frames h Two (f @ [TUM_line t (lit * (Trw * GetPose (kf_at h k) * Two))]) lits lRit lT lbL
         = Some (Inr f')" by simp
    from "2.IH"(2) [OF False w refl refl this] show ?thesis using False by auto
  qed
qed simp_all

lemma KITTI_frames_lines:
  "KITTI_frames h Two f lits lRit lT = Some (Inr f') \<Longrightarrow>
   \<exists>ls. f' = f @ ls \<and> length ls = length lits"
proof (induction h Two f lits lRit lT rule: KITTI_frames.induct)
  case (1 h Two f lRit lT)
  then show ?case by simp
next
  case (2 h Two f lit lits pKF lRit t lT)
  from "2.prems" obtain Trw k where
    w: "walk_parents h 1 pKF = Some (Inr (Trw, k))"
    by (auto split: option.splits sum.splits)
  with "2.prems" have
    "KITTI_frames h Two (f @ [KITTI_line (lit * (Trw * GetPose (kf_at h k) * Two))]) lits lRit lT
       = Some (Inr f')" by simp
  from "2.IH" [OF w refl refl this] show ?case by auto
qed simp_all

lemma SaveTrajectoryTUM_skips_lost:
  "SaveTrajectoryTUM s = Some (Inr (Some f)) \<Longrightarrow>
   length f = length (filter Not (take (length (mlRelativeFramePoses (mpTracker s)))
                                        (mlbLost (mpTracker s))))"
  by (auto simp: SaveTrajectoryTUM_def split: if_splits list.splits option.splits sum.splits
        dest!: TUM_frames_lines)

lemma SaveTrajectoryKITTI_keeps_lost:
  "SaveTrajectoryKITTI s = Some (Inr (Some f)) \<Longrightarrow>
   length f = length (mlRelativeFramePoses (mpTracker s))"
  by (auto simp: SaveTrajectoryKITTI_def split: if_splits list.splits option.splits sum.splits
        dest!: KITTI_frames_lines)

text \<open>
  C3. Format A skips lost records; format B does not: \<open>SaveTrajectoryKITTI\<close> never
  reads \<open>mlbLost\<close>, and for the records valid, lost, valid it streams three lines.
\<close>

theorem SaveTrajectoryKITTI_line_for_lost:
  "mlbLost (mpTracker (System_traj STEREO 3)) = [False, True, False]
   \<and> SaveTrajectoryKITTI (System_traj STEREO 3)
       = Some (Inr (Some [KITTI_line 6, KITTI_line 6, KITTI_line 6]))"
  by (simp add: SaveTrajectoryKITTI_def System_traj_def System_new_def sort_lId_def
        GetAllKeyFrames_def memory_ex_def KeyFrame_ex_def KeyFrame_default_def
        walk_parents.simps isBad_def GetParent_def GetPose_def GetPoseInverse_def)

text \<open>The same records through format A give two lines.\<close>

lemma SaveTrajectoryTUM_no_line_for_lost:
  "SaveTrajectoryTUM (System_traj STEREO 3) = Some (Inr (Some [TUM_line 1 6, TUM_line 3 6]))"
  by (simp add: SaveTrajectoryTUM_def System_traj_def System_new_def sort_lId_def
        GetAllKeyFrames_def memory_ex_def KeyFrame_ex_def KeyFrame_default_def
        walk_parents.simps isBad_def GetParent_def GetPose_def GetPoseInverse_def)

lemma SaveTrajectory_monocular:
  "mSensor s = MONOCULAR \<Longrightarrow> SaveTrajectoryTUM s = Some (Inr None)"
  "mSensor s = MONOCULAR \<Longrightarrow> SaveTrajectoryKITTI s = Some (Inr None)"
  by (simp_all add: SaveTrajectoryTUM_def SaveTrajectoryKITTI_def)

section \<open>Saving the map: the snapshot\<close>

text \<open>
  C6. When the path cannot be opened for writing \<open>SaveMap\<close> ends the process.
  Otherwise the archive has no header and holds two items, first all keyframes of the
  store, then all its landmarks: the keyframes are those of the store, each once,
  in ascending order of id; the landmarks are in the order the store gives them.
\<close>

theorem SaveMap_snapshot:
  "(\<not> can_write filename \<longrightarrow> SaveMap can_write s filename = Inl Exit)
   \<and> (can_write filename \<longrightarrow>
        (\<exists>vpKFs. SaveMap can_write s filename =
             Inr \<lparr>ar_header = False,
                  ar_items = [Item_KeyFrames (map (\<lambda>p. (p, kf_at (mem s) p)) vpKFs),
                              Item_MapPoints (map (\<lambda>p. (p, mp_at (mem s) p))
                                                (GetAllMapPoints (mpMap s)))]\<rparr>
           \<and> mset vpKFs = mset (GetAllKeyFrames (mpMap s))
           \<and> sorted (map (\<lambda>p. mnId (kf_at (mem s) p)) vpKFs)))"
proof (intro conjI impI)
  assume "\<not> can_write filename"
  then show "SaveMap can_write s filename = Inl Exit" by (simp add: SaveMap_def)
next
  assume w: "can_write filename"
  let ?v = "sort_lId (mem s) (GetAllKeyFrames (mpMap s))"
  have a: "SaveMap can_write s filename =
             Inr \<lparr>ar_header = False,
                  ar_items = [Item_KeyFrames (map (\<lambda>p. (p, kf_at (mem s) p)) ?v),
                              Item_MapPoints (map (\<lambda>p. (p, mp_at (mem s) p))
                                                (GetAllMapPoints (mpMap s)))]\<rparr>"
    using w by (simp add: SaveMap_def Let_def)
  have b: "mset ?v = mset (GetAllKeyFrames (mpMap s))" by (simp add: sort_lId_def)
  have c: "sorted (map (\<lambda>p. mnId (kf_at (mem s) p)) ?v)" by (simp add: sort_lId_def)
  from a b c show "\<exists>vpKFs. SaveMap can_write s filename =
             Inr \<lparr>ar_header = False,
                  ar_items = [Item_KeyFrames (map (\<lambda>p. (p, kf_at (mem s) p)) vpKFs),
                              Item_MapPoints (map (\<lambda>p. (p, mp_at (mem s) p))
                                                (GetAllMapPoints (mpMap s)))]\<rparr>
           \<and> mset vpKFs = mset (GetAllKeyFrames (mpMap s))
           \<and> sorted (map (\<lambda>p. mnId (kf_at (mem s) p)) vpKFs)"
    by (intro exI [of _ ?v] conjI)
qed

theorem SaveMap_snapshot_witness:
  "\<not> (\<lambda>p. p = ''map.bin'') ''/map.bin''
   \<and> SaveMap (\<lambda>p. p = ''map.bin'') System_saved ''/map.bin'' = Inl Exit
   \<and> (\<lambda>p. p = ''map.bin'') ''map.bin''
   \<and> (\<exists>vpKFs. SaveMap (\<lambda>p. p = ''map.bin'') System_saved ''map.bin'' =
             Inr \<lparr>ar_header = False,
                  ar_items = [Item_KeyFrames (map (\<lambda>p. (p, kf_at (mem System_saved) p)) vpKFs),
                              Item_MapPoints (map (\<lambda>p. (p, mp_at (mem System_saved) p))
                                                (GetAllMapPoints (mpMap System_saved)))]\<rparr>
           \<and> mset vpKFs = mset (GetAllKeyFrames (mpMap System_saved))
           \<and> sorted (map (\<lambda>p. mnId (kf_at (mem System_saved) p)) vpKFs))"
proof -
  let ?cw = "\<lambda>p. p = ''map.bin''"
  have a: "\<not> ?cw ''/map.bin''" by simp
  have b: "?cw ''map.bin''" by simp
  note t1 = SaveMap_snapshot [of ?cw "''/map.bin''" System_saved, THEN conjunct1, rule_format, OF a]
  note t2 = SaveMap_snapshot [of ?cw "''map.bin''" System_saved, THEN conjunct2, rule_format, OF b]
  show ?thesis
    by (intro conjI a b t1 t2)
qed

lemma SaveMap_example:
  "SaveMap (\<lambda>p. p = ''map.bin'') System_saved ''map.bin'' =
     Inr \<lparr>ar_header = False,
          ar_items = [Item_KeyFrames [(11, kf_at memory_graph 11), (12, kf_at memory_graph 12),
                                      (10, kf_at memory_graph 10)],
                      Item_MapPoints [(100, mp_at memory_graph 100), (101, mp_at memory_graph 101),
                                      (102, mp_at memory_graph 102)]]\<rparr>"
proof -
  have ids: "mnId (kf_at memory_graph 10) = 5" "mnId (kf_at memory_graph 11) = 1"
    "mnId (kf_at memory_graph 12) = 3"
    by (simp_all add: memory_graph_def KeyFrame_slots_def)
  have "sort_lId memory_graph [10, 11, 12] = [11, 12, 10]"
    by (simp add: sort_lId_def ids)
  then show ?thesis
    by (simp add: SaveMap_def System_saved_def System_new_def GetAllKeyFrames_def
        GetAllMapPoints_def Let_def)
qed

section \<open>Loading the map: a file that cannot be opened\<close>

text \<open>
  C8. For a path the file system cannot open for reading (the file is missing or may
  not be read) \<open>LoadMap\<close> returns \<open>false\<close>; the process goes on, and the state of the
  system, the map store included, is the one before the call.
\<close>

theorem LoadMap_unopenable:
  "fs_open filename = None \<Longrightarrow> LoadMap fs_open decode w s filename = Some (Inr (False, s))"
  by (simp add: LoadMap_def)

theorem LoadMap_unopenable_witness:
  "fs_ex ''nomap.bin'' = None
   \<and> LoadMap fs_ex (decode_ex vpKFs_ex) (world_after 3) (System_new STEREO False) ''nomap.bin''
       = Some (Inr (False, System_new STEREO False))"
proof -
  have h: "fs_ex ''nomap.bin'' = None" by (simp add: fs_ex_def)
  show ?thesis
    by (intro conjI h
          LoadMap_unopenable [of fs_ex "''nomap.bin''" "decode_ex vpKFs_ex" "world_after 3"
            "System_new STEREO False", OF h])
qed

section \<open>Loading the map: order of the two phases\<close>

lemma AddKeyFrame_slot_clock [simp]:
  "trace (AddKeyFrame_slot k vpMaps i s) = trace s"
  "now (AddKeyFrame_slot k vpMaps i s) = now s"
  by (simp_all add: AddKeyFrame_slot_def split: option.splits)

lemma fold_AddKeyFrame_slot_clock [simp]:
  "trace (fold (AddKeyFrame_slot k vpMaps) is s) = trace s"
  "now (fold (AddKeyFrame_slot k vpMaps) is s) = now s"
  by (induction "is" arbitrary: s) simp_all

lemma AddKeyFrame_clock [simp]:
  "trace (AddKeyFrame k s) = trace s" "now (AddKeyFrame k s) = now s"
  by (simp_all add: AddKeyFrame_def Let_def)

lemma LoadKeyFrames_step_clock [simp]:
  "trace (fst (LoadKeyFrames_step pKF sc)) = trace (fst sc)"
  "now (fst (LoadKeyFrames_step pKF sc)) = now (fst sc)"
  by (simp_all add: LoadKeyFrames_step_def split: option.splits)

lemma LoadKeyFrames_clock [simp]:
  "trace (fst (LoadKeyFrames vpKFs sc)) = trace (fst sc)"
  "now (fst (LoadKeyFrames vpKFs sc)) = now (fst sc)"
  unfolding LoadKeyFrames_def by (induction vpKFs arbitrary: sc) simp_all

lemma AddKeyFrame_slot_emit:
  "AddKeyFrame_slot k vpMaps i (emit e s) = emit e (AddKeyFrame_slot k vpMaps i s)"
  by (simp add: AddKeyFrame_slot_def emit_def split: option.splits)

lemma fold_AddKeyFrame_slot_emit:
  "fold (AddKeyFrame_slot k vpMaps) is (emit e s) = emit e (fold (AddKeyFrame_slot k vpMaps) is s)"
  by (induction "is" arbitrary: s) (simp_all add: AddKeyFrame_slot_emit)

lemma AddKeyFrame_emit: "AddKeyFrame k (emit e s) = emit e (AddKeyFrame k s)"
proof -
  have h: "(emit e s)\<lparr>mpMap := Map_AddKeyFrame k (mpMap s),
                  mpKeyFrameDatabase := KeyFrameDatabase_add k (mpKeyFrameDatabase s)\<rparr>
        = emit e (s\<lparr>mpMap := Map_AddKeyFrame k (mpMap s),
                  mpKeyFrameDatabase := KeyFrameDatabase_add k (mpKeyFrameDatabase s)\<rparr>)"
    by (simp add: emit_def)
  show ?thesis
    by (simp only: AddKeyFrame_def Let_def emit_simps h fold_AddKeyFrame_slot_emit)
qed

lemma LoadKeyFrames_emit:
  "LoadKeyFrames vpKFs (emit e s, c) = (emit e (fst (LoadKeyFrames vpKFs (s, c))),
                                        snd (LoadKeyFrames vpKFs (s, c)))"
  unfolding LoadKeyFrames_def
proof (induction vpKFs arbitrary: s c)
  case Nil
  then show ?case by simp
next
  case (Cons pKF vpKFs)
  have "LoadKeyFrames_step pKF (emit e s, c)
          = (emit e (fst (LoadKeyFrames_step pKF (s, c))), snd (LoadKeyFrames_step pKF (s, c)))"
    by (simp add: LoadKeyFrames_step_def AddKeyFrame_emit split: option.splits)
  then show ?case using Cons [of "fst (LoadKeyFrames_step pKF (s, c))" "snd (LoadKeyFrames_step pKF (s, c))"]
    by simp
qed

lemma LoadKeyFrames_mpMap_emit:
  "mpMap (fst (LoadKeyFrames vpKFs (emit e s, c))) = mpMap (fst (LoadKeyFrames vpKFs (s, c)))"
  by (simp add: LoadKeyFrames_emit)

lemma UpdateConnections_all_null:
  "None \<in> set vpKFs \<Longrightarrow> UpdateConnections_all vpKFs s = Inl NullDeref"
  by (induction vpKFs s rule: UpdateConnections_all.induct) auto

lemma UpdateConnections_all_events:
  "UpdateConnections_all (map Some ks) s =
     Inr (s\<lparr>now := now s + length ks, trace := trace s @ map KF_UpdateConnections ks\<rparr>)"
  by (induction ks arbitrary: s) (simp_all add: emit_def)

lemma LoadMapPoints_null:
  "None \<in> set vMapPoints \<Longrightarrow> LoadMapPoints vMapPoints s = Inl NullDeref"
  by (induction vMapPoints s rule: LoadMapPoints.induct) auto

lemma LoadMapPoints_events:
  "\<exists>s'. LoadMapPoints (map Some ps) s = Inr s'
     \<and> trace s' = trace s @ landmark_events ps
     \<and> mspKeyFrames (mpMap s') = mspKeyFrames (mpMap s)
     \<and> mem s' = mem s"
proof (induction ps arbitrary: s)
  case Nil
  then show ?case by simp
next
  case (Cons p ps)
  let ?s = "(emit (MP_UpdateNormalAndDepth p) (emit (MP_ComputeDistinctiveDescriptors p) s))
          \<lparr>mpMap := Map_AddMapPoint p (mpMap s)\<rparr>"
  from Cons [of ?s] obtain s' where
    "LoadMapPoints (map Some ps) ?s = Inr s'" "trace s' = trace ?s @ landmark_events ps"
    "mspKeyFrames (mpMap s') = mspKeyFrames (mpMap ?s)" "mem s' = mem ?s" by blast
  then show ?case by (simp add: Map_AddMapPoint_def)
qed

lemma LoadMap_null_keyframe:
  assumes "filename \<noteq> []" "fs_open filename = Some content"
    and "decode content (mem s) = Some (vpKFs, vMapPoints, h)"
    and "\<forall>j<k. \<not> is_finished_seen_at w (Suc (now s) + 2 * j)"
    and "is_finished_seen_at w (Suc (now s) + 2 * k)"
    and "None \<in> set vpKFs"
  shows "LoadMap fs_open decode w s filename = Some (Inl NullDeref)"
proof -
  let ?s1 = "fst (LoadKeyFrames vpKFs (emit (Thread_start Body_LoadKeyFrames) (s\<lparr>mem := h\<rparr>), 0))"
  have n: "now ?s1 = Suc (now s)" by simp
  have w: "wait_is_finished w ?s1 =
     Some (?s1\<lparr>now := now ?s1 + 2 * k + 1,
            trace := trace ?s1 @ polls (Read_is_finished False) 30000 k @ [Read_is_finished True]\<rparr>)"
  proof (rule wait_is_finished_polls)
    show "\<forall>j<k. \<not> is_finished_seen_at w (now ?s1 + 2 * j)"
      unfolding n using assms(4) .
    show "is_finished_seen_at w (now ?s1 + 2 * k)"
      unfolding n using assms(5) .
  qed
  show ?thesis
    unfolding LoadMap_def
    by (simp only: assms(1,2,3) if_False option.case prod.case sum.case w
          UpdateConnections_all_null [OF assms(6)])
qed

text \<open>
  When no decoded entry is null and the controller sees the flag at its poll number
  \<open>k\<close>, \<open>LoadMap\<close> returns \<open>true\<close> after the events below, in this order.
\<close>

lemma LoadMap_order:
  assumes "filename \<noteq> []" "fs_open filename = Some content"
    and "decode content (mem s) = Some (map Some ks, map Some ps, h)"
    and "\<forall>j<k. \<not> is_finished_seen_at w (Suc (now s) + 2 * j)"
    and "is_finished_seen_at w (Suc (now s) + 2 * k)"
  shows "\<exists>s'. LoadMap fs_open decode w s filename = Some (Inr (True, s'))
     \<and> trace s' = trace s @ Thread_start Body_LoadKeyFrames
          # polls (Read_is_finished False) 30000 k
          @ [Read_is_finished True, Thread_join Body_LoadKeyFrames,
             Thread_start Body_LoadMapPoints]
          @ map KF_UpdateConnections ks @ landmark_events ps
          @ [Thread_join Body_LoadMapPoints]
     \<and> mspKeyFrames (mpMap s')
         = mspKeyFrames (mpMap (fst (LoadKeyFrames (map Some ks) (s\<lparr>mem := h\<rparr>, 0))))"
proof -
  let ?s1 = "fst (LoadKeyFrames (map Some ks) (emit (Thread_start Body_LoadKeyFrames) (s\<lparr>mem := h\<rparr>), 0))"
  have n: "now ?s1 = Suc (now s)" by simp
  let ?s2 = "?s1\<lparr>now := now ?s1 + 2 * k + 1,
            trace := trace ?s1 @ polls (Read_is_finished False) 30000 k @ [Read_is_finished True]\<rparr>"
  have w: "wait_is_finished w ?s1 = Some ?s2"
  proof (rule wait_is_finished_polls)
    show "\<forall>j<k. \<not> is_finished_seen_at w (now ?s1 + 2 * j)"
      unfolding n using assms(4) .
    show "is_finished_seen_at w (now ?s1 + 2 * k)"
      unfolding n using assms(5) .
  qed
  let ?s3 = "emit (Thread_start Body_LoadMapPoints) (emit (Thread_join Body_LoadKeyFrames) ?s2)"
  let ?s4 = "?s3\<lparr>now := now ?s3 + length ks, trace := trace ?s3 @ map KF_UpdateConnections ks\<rparr>"
  have u: "UpdateConnections_all (map Some ks) ?s3 = Inr ?s4"
    by (rule UpdateConnections_all_events)
  from LoadMapPoints_events [of ps ?s4] obtain s5 where
    l: "LoadMapPoints (map Some ps) ?s4 = Inr s5" "trace s5 = trace ?s4 @ landmark_events ps"
      "mspKeyFrames (mpMap s5) = mspKeyFrames (mpMap ?s4)" by blast
  have r: "LoadMap fs_open decode w s filename
             = Some (Inr (True, emit (Thread_join Body_LoadMapPoints) s5))"
    unfolding LoadMap_def
    by (simp only: assms(1,2,3) if_False option.case prod.case sum.case w u l(1))
  show ?thesis
    by (rule exI [of _ "emit (Thread_join Body_LoadMapPoints) s5"])
       (simp add: r l(2,3) LoadKeyFrames_mpMap_emit)
qed

lemma LoadKeyFrames_example:
  "mspKeyFrames (mpMap (fst (LoadKeyFrames [Some 10, Some 11, Some 12]
      ((System_new STEREO False)\<lparr>mem := memory_graph\<rparr>, 0)))) = [10, 12]"
  by (simp add: LoadKeyFrames_def LoadKeyFrames_step_def AddKeyFrame_def AddKeyFrame_slot_def
        System_new_def memory_graph_def KeyFrame_slots_def KeyFrame_default_def
        MapPoint_default_def isBad_def MapPoint_isBad_def GetMapPointMatches_def
        Map_AddKeyFrame_def Map_AddMapPoint_def KeyFrameDatabase_add_def set_insert_def
        AddObservation_def KeyFrame_AddMapPoint_def Let_def upt_rec)

text \<open>
  C5. The order of the two phases is as \<open>LoadMap_order\<close> states: the second thread
  is started after the read of \<open>is_finished\<close> that ends the polling and after the
  join of the first; the controller then goes through the keyframes; the second thread
  is joined before \<open>true\<close> is returned. But the controller goes through the decoded
  vector, not through the installed keyframes: a null entry, which phase 1 skips, is
  dereferenced, and a bad keyframe, which phase 1 does not install, has its
  connections rebuilt all the same.
\<close>

theorem LoadMap_UpdateConnections_uninstalled:
  "LoadMap_report (LoadMap fs_ex (decode_ex [Some 10, None, Some 12]) (world_after 3)
          (System_new STEREO False) ''map.bin'')
     = Some (Inl NullDeref)
   \<and> LoadMap_report (LoadMap fs_ex (decode_ex [Some 10, Some 11, Some 12]) (world_after 3)
          (System_new STEREO False) ''map.bin'')
     = Some (Inr (True,
         [Thread_start Body_LoadKeyFrames, Read_is_finished False,
          Usleep 30000, Read_is_finished True,
          Thread_join Body_LoadKeyFrames, Thread_start Body_LoadMapPoints,
          KF_UpdateConnections 10, KF_UpdateConnections 11,
          KF_UpdateConnections 12, MP_ComputeDistinctiveDescriptors 100,
          MP_UpdateNormalAndDepth 100, MP_ComputeDistinctiveDescriptors 101,
          MP_UpdateNormalAndDepth 101, MP_ComputeDistinctiveDescriptors 102,
          MP_UpdateNormalAndDepth 102, Thread_join Body_LoadMapPoints],
         [10, 12]))"
proof
  let ?s = "System_new STEREO False :: int System"
  let ?w = "world_after 3 :: int world"
  have f: "''map.bin'' \<noteq> []" "fs_ex ''map.bin'' = Some ()"
    by (simp_all add: fs_ex_def)
  have n: "now ?s = 0" "trace ?s = []" by (simp_all add: System_new_def)
  have p: "\<forall>j<1. \<not> is_finished_seen_at ?w (Suc (now ?s) + 2 * j)"
    "is_finished_seen_at ?w (Suc (now ?s) + 2 * 1)"
    by (simp_all add: n world_after_def)
  have d1: "decode_ex [Some 10, None, Some 12] () (mem ?s)
              = Some ([Some 10, None, Some 12], vMapPoints_ex, memory_graph)"
    by (simp add: decode_ex_def)
  have "LoadMap fs_ex (decode_ex [Some 10, None, Some 12]) ?w ?s ''map.bin'' = Some (Inl NullDeref)"
    by (rule LoadMap_null_keyframe
          [where fs_open = fs_ex and decode = "decode_ex [Some 10, None, Some 12]"
             and content = "()" and k = 1, OF f d1 p]) simp
  then show "LoadMap_report (LoadMap fs_ex (decode_ex [Some 10, None, Some 12]) ?w ?s ''map.bin'')
     = Some (Inl NullDeref)"
    by (simp add: LoadMap_report_def)
  have d2: "decode_ex [Some 10, Some 11, Some 12] () (mem ?s)
              = Some (map Some [10, 11, 12], map Some [100, 101, 102], memory_graph)"
    by (simp add: decode_ex_def vMapPoints_ex_def)
  from LoadMap_order
      [where fs_open = fs_ex and decode = "decode_ex [Some 10, Some 11, Some 12]"
         and content = "()" and k = 1, OF f d2 p]
  obtain s' where
    r: "LoadMap fs_ex (decode_ex [Some 10, Some 11, Some 12]) ?w ?s ''map.bin'' = Some (Inr (True, s'))"
    and t: "trace s' = trace ?s @ Thread_start Body_LoadKeyFrames
          # polls (Read_is_finished False) 30000 1
          @ [Read_is_finished True, Thread_join Body_LoadKeyFrames,
             Thread_start Body_LoadMapPoints]
          @ map KF_UpdateConnections [10, 11, 12] @ landmark_events [100, 101, 102]
          @ [Thread_join Body_LoadMapPoints]"
    and k: "mspKeyFrames (mpMap s')
         = mspKeyFrames (mpMap (fst (LoadKeyFrames (map Some [10, 11, 12]) (?s\<lparr>mem := memory_graph\<rparr>, 0))))"
    by blast
  show "LoadMap_report (LoadMap fs_ex (decode_ex [Some 10, Some 11, Some 12]) ?w ?s ''map.bin'')
     = Some (Inr (True,
         [Thread_start Body_LoadKeyFrames, Read_is_finished False,
          Usleep 30000, Read_is_finished True,
          Thread_join Body_LoadKeyFrames, Thread_start Body_LoadMapPoints,
          KF_UpdateConnections 10, KF_UpdateConnections 11,
          KF_UpdateConnections 12, MP_ComputeDistinctiveDescriptors 100,
          MP_UpdateNormalAndDepth 100, MP_ComputeDistinctiveDescriptors 101,
          MP_UpdateNormalAndDepth 101, MP_ComputeDistinctiveDescriptors 102,
          MP_UpdateNormalAndDepth 102, Thread_join Body_LoadMapPoints],
         [10, 12]))"
    unfolding LoadMap_report_def r
    by (simp add: t k n LoadKeyFrames_example)
qed

section \<open>The matrix codec: round trip\<close>

lemma length_le_bytes [simp]: "length (le_bytes k v) = k"
  by (induction k arbitrary: v) simp_all

lemma unat_byte_of_nat: "unat (of_nat (v mod 256) :: byte) = v mod 256"
  by (simp add: unat_of_nat)

lemma le_value_le_bytes: "v < 256 ^ k \<Longrightarrow> le_value (le_bytes k v) = v"
proof (induction k arbitrary: v)
  case 0
  then show ?case by simp
next
  case (Suc k)
  have "v div 256 < 256 ^ k"
    using Suc.prems by (simp add: less_mult_imp_div_less mult.commute)
  then have "le_value (le_bytes k (v div 256)) = v div 256" by (rule Suc.IH)
  then show ?case by (simp add: unat_byte_of_nat)
qed

lemma int_of_size_t_nat:
  assumes "int_in_range i"
  shows "int_of_size_t (nat (i mod 2 ^ 32)) = i"
proof -
  have r: "- 2147483648 \<le> i" "i < 2147483648" using assms by (simp_all add: int_in_range_def)
  show ?thesis
  proof (cases "0 \<le> i")
    case True
    then have "i mod 4294967296 = i" using r by simp
    then show ?thesis using True r by (simp add: int_of_size_t_def)
  next
    case False
    have "(i + 4294967296) mod 4294967296 = i + 4294967296"
      using r False by (intro mod_pos_pos_trivial) simp_all
    then have m: "i mod 4294967296 = i + 4294967296" by simp
    show ?thesis using False r by (simp add: m int_of_size_t_def)
  qed
qed

lemma load_save_int:
  "int_in_range i \<Longrightarrow> load_int (save_int i @ ar) = Some (i, ar)"
proof -
  assume a: "int_in_range i"
  have "nat (i mod 2 ^ 32) < 256 ^ 4" by simp
  then have "le_value (le_bytes 4 (nat (i mod 2 ^ 32))) = nat (i mod 2 ^ 32)"
    by (rule le_value_le_bytes)
  then show ?thesis
    using int_of_size_t_nat [OF a] by (simp add: load_int_def save_int_def)
qed

lemma load_save_size_t:
  "n < 2 ^ 64 \<Longrightarrow> load_size_t (save_size_t n @ ar) = Some (n, ar)"
proof -
  assume a: "n < 2 ^ 64"
  then have "n mod 2 ^ 64 < 256 ^ 8" by simp
  then have "le_value (le_bytes 8 (n mod 2 ^ 64)) = n mod 2 ^ 64"
    by (rule le_value_le_bytes)
  then show ?thesis
    using a by (simp add: load_size_t_def save_size_t_def)
qed

lemma depth_size_bounds: "0 < depth_size d" "depth_size d \<le> 8"
proof -
  have "d mod 8 < 8" by simp
  then have "d mod 8 \<in> {0, 1, 2, 3, 4, 5, 6, 7}" by auto
  then show "0 < depth_size d" "depth_size d \<le> 8"
    by (auto simp: depth_size_def)
qed

lemma elemSize_of_bounds: "0 < elemSize_of ty" "elemSize_of ty \<le> 4096"
proof -
  show "0 < elemSize_of ty" by (simp add: elemSize_of_def depth_size_bounds)
  have "ty mod 4096 div 8 + 1 \<le> 512"
  proof -
    have "ty mod 4096 < 4096" by simp
    then have "ty mod 4096 div 8 < 512" by (simp add: less_mult_imp_div_less)
    then show ?thesis by simp
  qed
  then have "(ty mod 4096 div 8 + 1) * depth_size (ty mod 8) \<le> 512 * 8"
    using depth_size_bounds(2) by (rule mult_le_mono)
  then show "elemSize_of ty \<le> 4096" by (simp add: elemSize_of_def)
qed


lemma data_size_of_wf:
  assumes "wf_Mat m" "elements_in_int m"
  shows "data_size_of (mat_cols m) (mat_rows m) (elemSize m)
           = Inr (nat (mat_rows m) * (nat (mat_cols m) * elemSize m))"
proof -
  let ?c = "mat_cols m" and ?r = "mat_rows m"
  have c: "0 \<le> ?c" and r: "0 \<le> ?r" and cr: "?r * ?c < 2147483648"
    using assms by (simp_all add: wf_Mat_def elements_in_int_def)
  have nn: "0 \<le> ?c * ?r" using c r by simp
  have lt: "?c * ?r < 2147483648" using cr by (simp add: mult.commute)
  have ir: "int_in_range (?c * ?r)" using nn lt by (simp add: int_in_range_def)
  have "(?c * ?r) mod 18446744073709551616 = ?c * ?r"
    using nn lt by (intro mod_pos_pos_trivial) simp_all
  then have st: "size_t_of_int (?c * ?r) = nat ?c * nat ?r"
    using c r by (simp add: size_t_of_int_def nat_mult_distrib)
  have "nat ?c * nat ?r < 2147483648"
    using lt c r by (simp add: nat_mult_distrib [symmetric] nat_less_iff)
  then have "nat ?c * nat ?r * elemSize m < 2147483648 * 4096"
    using elemSize_of_bounds [of "mat_type m"]
    by (intro mult_less_le_imp_less) (simp_all add: elemSize_def)
  then have "nat ?c * nat ?r * elemSize m < 18446744073709551616" by simp
  then have "(nat ?c * nat ?r * elemSize m) mod 18446744073709551616 = nat ?c * nat ?r * elemSize m"
    by simp
  then show ?thesis using ir st by (simp add: data_size_of_def mult.assoc mult.left_commute)
qed

lemma wf_continuous_length:
  "wf_Mat m \<Longrightarrow> mat_continuous m \<Longrightarrow>
   length (mat_data m) = nat (mat_rows m) * (nat (mat_cols m) * elemSize m)"
  by (simp add: wf_Mat_def)

lemma Mat_save_continuous:
  assumes "wf_Mat m" "isContinuous m" "elements_in_int m"
  shows "Mat_save m = Inr (Mat_header m @ mat_data m)"
  using assms wf_continuous_length [of m]
  by (simp add: Mat_save_def isContinuous_def data_size_of_wf Mat_header_def Let_def)

lemma length_fresh_buffer [simp]: "length (fresh_buffer uninit n) = n"
  by (simp add: fresh_buffer_def min_def)

lemma Mat_create_shape:
  assumes "wf_Mat m" "isContinuous m" "wf_Mat m0" "isContinuous m0"
  shows "\<exists>m1. Mat_create uninit (mat_rows m) (mat_cols m) (int (mat_type m)) m0 = Inr m1
     \<and> m1\<lparr>mat_data := mat_data m\<rparr> = m
     \<and> length (mat_data m1) = length (mat_data m)"
proof -
  have ty: "int (mat_type m) mod 4096 = int (mat_type m)"
    using assms(1) by (simp add: wf_Mat_def)
  have nn: "\<not> (mat_rows m < 0 \<or> mat_cols m < 0)" using assms(1) by (simp add: wf_Mat_def)
  have st: "mat_step m = nat (mat_cols m) * elemSize m" "mat_continuous m"
    using assms(1,2) by (simp_all add: wf_Mat_def isContinuous_def)
  have len: "length (mat_data m) = nat (mat_rows m) * (nat (mat_cols m) * elemSize m)"
    using assms(1) st(2) by (rule wf_continuous_length)
  show ?thesis
  proof (cases "mat_rows m0 = mat_rows m \<and> mat_cols m0 = mat_cols m
                  \<and> int (mat_type m0) = int (mat_type m) mod 4096 \<and> mat_data m0 \<noteq> []")
    case True
    then have same: "mat_rows m0 = mat_rows m" "mat_cols m0 = mat_cols m" "mat_type m0 = mat_type m"
      using ty by simp_all
    have st0: "mat_step m0 = nat (mat_cols m0) * elemSize m0" "mat_continuous m0"
      using assms(3,4) by (simp_all add: wf_Mat_def isContinuous_def)
    have len0: "length (mat_data m0) = nat (mat_rows m0) * (nat (mat_cols m0) * elemSize m0)"
      using assms(3) st0(2) by (rule wf_continuous_length)
    have c: "Mat_create uninit (mat_rows m) (mat_cols m) (int (mat_type m)) m0 = Inr m0"
      using True nn by (simp add: Mat_create_def)
    have e: "m0\<lparr>mat_data := mat_data m\<rparr> = m"
      using same st st0 by (simp add: elemSize_def)
    have l: "length (mat_data m0) = length (mat_data m)"
      using len len0 same by (simp add: elemSize_def)
    show ?thesis using c e l by blast
  next
    case False
    let ?m1 = "\<lparr>mat_rows = mat_rows m, mat_cols = mat_cols m,
                mat_type = nat (int (mat_type m) mod 4096), mat_continuous = True,
                mat_step = nat (mat_cols m) * elemSize_of (nat (int (mat_type m) mod 4096)),
                mat_data = fresh_buffer uninit
                  (nat (mat_rows m) * nat (mat_cols m) * elemSize_of (nat (int (mat_type m) mod 4096)))\<rparr>"
    have c: "Mat_create uninit (mat_rows m) (mat_cols m) (int (mat_type m)) m0 = Inr ?m1"
      using False nn unfolding Mat_create_def by (simp only: if_False)
    have e: "?m1\<lparr>mat_data := mat_data m\<rparr> = m"
      using st by (simp add: ty elemSize_def)
    have l: "length (mat_data ?m1) = length (mat_data m)"
      using len by (simp add: ty elemSize_def mult.assoc)
    show ?thesis using c e l by blast
  qed
qed


lemma Mat_load_header:
  assumes "wf_Mat m" "isContinuous m" "elements_in_int m" "wf_Mat m0" "isContinuous m0"
  shows "Mat_load uninit m0 (Mat_header m @ mat_data m @ ar) = Inr (m, ar)"
proof -
  have ir: "int_in_range (mat_cols m)" "int_in_range (mat_rows m)"
    using assms(1) by (simp_all add: wf_Mat_def)
  have es: "elemSize m < 2 ^ 64"
    using elemSize_of_bounds(2) [of "mat_type m"] by (simp add: elemSize_def)
  have ty: "mat_type m < 2 ^ 64" "mat_type m < 4096"
    using assms(1) by (simp_all add: wf_Mat_def)
  have it: "int_of_size_t (mat_type m) = int (mat_type m)"
    using ty(2) by (simp add: int_of_size_t_def)
  from Mat_create_shape [OF assms(1,2,4,5), of uninit] obtain m1 where
    c: "Mat_create uninit (mat_rows m) (mat_cols m) (int (mat_type m)) m0 = Inr m1"
    and e: "m1\<lparr>mat_data := mat_data m\<rparr> = m"
    and l: "length (mat_data m1) = length (mat_data m)"
    by blast
  have sh: "mat_cols m1 = mat_cols m" "mat_rows m1 = mat_rows m"
    using e by (metis Mat.select_convs(1,2) Mat.surjective Mat.update_convs(6))+
  have ds: "data_size_of (mat_cols m1) (mat_rows m1) (elemSize m) = Inr (length (mat_data m))"
    using data_size_of_wf [OF assms(1,3)] wf_continuous_length [OF assms(1)] assms(2)
    by (simp add: sh isContinuous_def)
  have l1: "load_int (Mat_header m @ mat_data m @ ar)
      = Some (mat_cols m, save_int (mat_rows m) @ save_size_t (elemSize m)
                @ save_size_t (mat_type m) @ mat_data m @ ar)"
    unfolding Mat_header_def append_assoc by (rule load_save_int [OF ir(1)])
  have l2: "load_int (save_int (mat_rows m) @ save_size_t (elemSize m)
                @ save_size_t (mat_type m) @ mat_data m @ ar)
      = Some (mat_rows m, save_size_t (elemSize m) @ save_size_t (mat_type m) @ mat_data m @ ar)"
    by (rule load_save_int [OF ir(2)])
  have l3: "load_size_t (save_size_t (elemSize m) @ save_size_t (mat_type m) @ mat_data m @ ar)
      = Some (elemSize m, save_size_t (mat_type m) @ mat_data m @ ar)"
    by (rule load_save_size_t [OF es])
  have l4: "load_size_t (save_size_t (mat_type m) @ mat_data m @ ar)
      = Some (mat_type m, mat_data m @ ar)"
    by (rule load_save_size_t [OF ty(1)])
  show ?thesis
    unfolding Mat_load_def
    by (simp only: l1 l2 l3 l4 option.case prod.case it c sum.case ds)
       (simp add: l e)
qed

text \<open>
  C9, as amended. A continuous matrix (two-dimensional) that has fewer than \<open>2^31\<close>
  elements is streamed as its column count, its row count, its element size in bytes,
  its type tag and then its rows \<open>\<times>\<close> cols \<open>\<times>\<close> element-size raw bytes; reading
  these bytes back, into a default-constructed or any other well-formed continuous
  matrix, yields the same matrix, its buffer byte for byte, and leaves the rest of the
  archive.
\<close>

theorem Mat_roundtrip:
  assumes "wf_Mat m" "isContinuous m" "elements_in_int m" "wf_Mat m0" "isContinuous m0"
  shows "\<exists>bytes. Mat_save m = Inr bytes
     \<and> bytes = save_int (mat_cols m) @ save_int (mat_rows m) @ save_size_t (elemSize m)
                @ save_size_t (mat_type m) @ mat_data m
     \<and> length (mat_data m) = nat (mat_rows m) * nat (mat_cols m) * elemSize m
     \<and> Mat_load uninit m0 (bytes @ ar) = Inr (m, ar)"
proof -
  have a: "Mat_save m = Inr (Mat_header m @ mat_data m)"
    using assms(1,2,3) by (rule Mat_save_continuous)
  have b: "Mat_load uninit m0 ((Mat_header m @ mat_data m) @ ar) = Inr (m, ar)"
    unfolding append_assoc using assms by (rule Mat_load_header)
  have c: "length (mat_data m) = nat (mat_rows m) * nat (mat_cols m) * elemSize m"
    using wf_continuous_length [OF assms(1)] assms(2) by (simp add: isContinuous_def mult.assoc)
  have d: "Mat_header m @ mat_data m = save_int (mat_cols m) @ save_int (mat_rows m)
             @ save_size_t (elemSize m) @ save_size_t (mat_type m) @ mat_data m"
    by (simp add: Mat_header_def)
  show ?thesis using a b c d by metis
qed


lemma elemSize_Mat_3x4: "elemSize Mat_3x4 = 4"
  by (simp add: elemSize_def elemSize_of_def depth_size_def Mat_3x4_def)

lemma wf_Mat_3x4: "wf_Mat Mat_3x4"
  by (simp add: wf_Mat_def elemSize_Mat_3x4 int_in_range_def) (simp add: Mat_3x4_def)

lemma wf_Mat_empty: "wf_Mat Mat_empty"
  by (simp add: wf_Mat_def Mat_empty_def int_in_range_def)

lemma elements_in_int_3x4: "elements_in_int Mat_3x4"
  by (simp add: elements_in_int_def Mat_3x4_def)

theorem Mat_roundtrip_witness:
  "wf_Mat Mat_3x4 \<and> isContinuous Mat_3x4 \<and> elements_in_int Mat_3x4
   \<and> wf_Mat Mat_empty \<and> isContinuous Mat_empty
   \<and> (\<exists>bytes. Mat_save Mat_3x4 = Inr bytes
     \<and> bytes = save_int (mat_cols Mat_3x4) @ save_int (mat_rows Mat_3x4)
                @ save_size_t (elemSize Mat_3x4) @ save_size_t (mat_type Mat_3x4)
                @ mat_data Mat_3x4
     \<and> length (mat_data Mat_3x4) = nat (mat_rows Mat_3x4) * nat (mat_cols Mat_3x4) * elemSize Mat_3x4
     \<and> Mat_load (\<lambda>n. []) Mat_empty (bytes @ []) = Inr (Mat_3x4, []))"
proof -
  have c: "isContinuous Mat_3x4" "isContinuous Mat_empty"
    by (simp_all add: isContinuous_def Mat_3x4_def Mat_empty_def)
  show ?thesis
    by (intro conjI wf_Mat_3x4 wf_Mat_empty c elements_in_int_3x4
          Mat_roundtrip [OF wf_Mat_3x4 c(1) elements_in_int_3x4 wf_Mat_empty c(2)])
qed

text \<open>
  C9, as stated, fails: the claim speaks of every continuous matrix buffer. A
  well-formed continuous matrix of 65536 rows and 65536 columns of one-byte elements
  has \<open>2^32\<close> elements; \<open>save\<close> takes \<open>cols * rows\<close> in \<open>int\<close>, where this product
  overflows, and streams no encoding of the buffer.
\<close>

theorem Mat_save_big_counterexample:
  "wf_Mat Mat_big \<and> isContinuous Mat_big \<and> \<not> elements_in_int Mat_big
   \<and> length (mat_data Mat_big) = nat (mat_rows Mat_big) * nat (mat_cols Mat_big) * elemSize Mat_big
   \<and> Mat_save Mat_big = Inl SignedOverflow"
proof -
  have f: "mat_rows Mat_big = 65536" "mat_cols Mat_big = 65536" "mat_type Mat_big = 0"
    "mat_continuous Mat_big" "mat_step Mat_big = 65536"
    "mat_data Mat_big = zeros (65536 * 65536)"
    by (simp_all add: Mat_big_def)
  have l: "length (zeros n) = n" for n by (simp add: zeros_def)
  have e: "elemSize Mat_big = 1"
    by (simp add: elemSize_def elemSize_of_def depth_size_def f)
  have 1: "wf_Mat Mat_big" by (simp add: wf_Mat_def f e l int_in_range_def)
  have 2: "isContinuous Mat_big" by (simp add: isContinuous_def f)
  have 3: "\<not> elements_in_int Mat_big" by (simp add: elements_in_int_def f)
  have 4: "length (mat_data Mat_big)
             = nat (mat_rows Mat_big) * nat (mat_cols Mat_big) * elemSize Mat_big"
    by (simp add: f e l)
  have "data_size_of (mat_cols Mat_big) (mat_rows Mat_big) (elemSize Mat_big) = Inl SignedOverflow"
    by (simp add: data_size_of_def f int_in_range_def)
  then have 5: "Mat_save Mat_big = Inl SignedOverflow"
    using 2 by (simp add: Mat_save_def Let_def)
  show ?thesis using 1 2 3 4 5 by (intro conjI)
qed

text \<open>The bytes of the example: 4 columns, 3 rows, 4 bytes per element, tag 5.\<close>

lemma le_bytes_4: "le_bytes 4 v = [of_nat (v mod 256), of_nat (v div 256 mod 256),
     of_nat (v div 256 div 256 mod 256), of_nat (v div 256 div 256 div 256 mod 256)]"
proof -
  have "(4::nat) = Suc (Suc (Suc (Suc 0)))" by simp
  then show ?thesis by (simp only: le_bytes.simps)
qed

lemma le_bytes_8: "le_bytes 8 v = le_bytes 4 v @ le_bytes 4 (v div 256 div 256 div 256 div 256)"
proof -
  have e: "(8::nat) = Suc (Suc (Suc (Suc (Suc (Suc (Suc (Suc 0)))))))" by simp
  have f: "(4::nat) = Suc (Suc (Suc (Suc 0)))" by simp
  show ?thesis unfolding e f by (simp only: le_bytes.simps append_Cons append_Nil)
qed

lemma Mat_header_3x4:
  "Mat_header Mat_3x4
      = [4, 0, 0, 0] @ [3, 0, 0, 0] @ [4, 0, 0, 0, 0, 0, 0, 0] @ [5, 0, 0, 0, 0, 0, 0, 0]"
proof -
  have f: "mat_cols Mat_3x4 = 4" "mat_rows Mat_3x4 = 3" "mat_type Mat_3x4 = 5"
    by (simp_all add: Mat_3x4_def)
  show ?thesis
    by (simp add: Mat_header_def elemSize_Mat_3x4 f save_int_def save_size_t_def
          le_bytes_8 le_bytes_4)
qed

lemma Mat_save_example:
  "Mat_save Mat_3x4 =
     Inr ([4, 0, 0, 0] @ [3, 0, 0, 0] @ [4, 0, 0, 0, 0, 0, 0, 0] @ [5, 0, 0, 0, 0, 0, 0, 0]
          @ map of_nat [0..<48])"
proof -
  have "Mat_save Mat_3x4 = Inr (Mat_header Mat_3x4 @ mat_data Mat_3x4)"
    by (rule Mat_save_continuous [OF wf_Mat_3x4 _ elements_in_int_3x4])
       (simp add: isContinuous_def Mat_3x4_def)
  moreover have "mat_data Mat_3x4 = map of_nat [0..<48]" by (simp add: Mat_3x4_def)
  ultimately show ?thesis by (simp only: Mat_header_3x4 append_assoc)
qed

section \<open>Loading the map: the keyframe install\<close>

lemma memory_ops [simp]:
  "kf_at (AddObservation p k i h) = kf_at h"
  "mp_at (AddObservation p k i h) =
     (mp_at h)(p := (mp_at h p)\<lparr>mObservations := (mObservations (mp_at h p))(k \<mapsto> i)\<rparr>)"
  "mp_at (KeyFrame_AddMapPoint k p i h) = mp_at h"
  "kf_at (KeyFrame_AddMapPoint k p i h) =
     (kf_at h)(k := (kf_at h k)\<lparr>mvpMapPoints := (mvpMapPoints (kf_at h k))[i := Some p]\<rparr>)"
  by (simp_all add: AddObservation_def KeyFrame_AddMapPoint_def)

lemma set_set_insert [simp]: "set (set_insert x xs) = insert x (set xs)"
  by (simp add: set_insert_def set_insort_key insert_absorb)

lemma list_update_same: "xs ! i = v \<Longrightarrow> xs[i := v] = xs"
  by auto

lemma AddKeyFrame_slot_kf:
  "mvpMapPoints (kf_at (mem s) k) = vpMaps \<Longrightarrow>
   kf_at (mem (AddKeyFrame_slot k vpMaps i s)) = kf_at (mem s)"
  by (auto simp: AddKeyFrame_slot_def list_update_same split: option.splits)

lemma fold_slot_kf:
  "mvpMapPoints (kf_at (mem s) k) = vpMaps \<Longrightarrow>
   kf_at (mem (fold (AddKeyFrame_slot k vpMaps) is s)) = kf_at (mem s)"
proof (induction "is" arbitrary: s)
  case Nil
  then show ?case by simp
next
  case (Cons i "is")
  have a: "kf_at (mem (AddKeyFrame_slot k vpMaps i s)) = kf_at (mem s)"
    using Cons.prems by (rule AddKeyFrame_slot_kf)
  then have "mvpMapPoints (kf_at (mem (AddKeyFrame_slot k vpMaps i s)) k) = vpMaps"
    using Cons.prems by simp
  from Cons.IH [OF this] show ?case using a by simp
qed

lemma AddKeyFrame_slot_bad:
  "mp_mbBad (mp_at (mem (AddKeyFrame_slot k vpMaps i s)) p) = mp_mbBad (mp_at (mem s) p)"
  by (simp add: AddKeyFrame_slot_def split: option.splits)

lemma fold_slot_bad:
  "mp_mbBad (mp_at (mem (fold (AddKeyFrame_slot k vpMaps) is s)) p) = mp_mbBad (mp_at (mem s) p)"
  by (induction "is" arbitrary: s) (simp_all add: AddKeyFrame_slot_bad)

lemma AddKeyFrame_slot_obs_other:
  "k' \<noteq> k \<Longrightarrow> mObservations (mp_at (mem (AddKeyFrame_slot k vpMaps i s)) p) k'
                = mObservations (mp_at (mem s) p) k'"
  by (simp add: AddKeyFrame_slot_def split: option.splits)

lemma fold_slot_obs_other:
  "k' \<noteq> k \<Longrightarrow> mObservations (mp_at (mem (fold (AddKeyFrame_slot k vpMaps) is s)) p) k'
                = mObservations (mp_at (mem s) p) k'"
  by (induction "is" arbitrary: s) (simp_all add: AddKeyFrame_slot_obs_other)

lemma AddKeyFrame_slot_store:
  "mspKeyFrames (mpMap (AddKeyFrame_slot k vpMaps i s)) = mspKeyFrames (mpMap s)"
  "mpKeyFrameDatabase (AddKeyFrame_slot k vpMaps i s) = mpKeyFrameDatabase s"
  by (simp_all add: AddKeyFrame_slot_def Map_AddMapPoint_def split: option.splits)

lemma fold_slot_store:
  "mspKeyFrames (mpMap (fold (AddKeyFrame_slot k vpMaps) is s)) = mspKeyFrames (mpMap s)"
  "mpKeyFrameDatabase (fold (AddKeyFrame_slot k vpMaps) is s) = mpKeyFrameDatabase s"
  by (induction "is" arbitrary: s) (simp_all add: AddKeyFrame_slot_store)

lemma AddKeyFrame_slot_obs:
  "mObservations (mp_at (mem (AddKeyFrame_slot k vpMaps n s)) p) k =
     (if vpMaps ! n = Some p \<and> \<not> MapPoint_isBad (mp_at (mem s) p) then Some n
      else mObservations (mp_at (mem s) p) k)"
  by (auto simp: AddKeyFrame_slot_def split: option.splits)

lemma AddKeyFrame_slot_mps:
  "set (mspMapPoints (mpMap (AddKeyFrame_slot k vpMaps n s))) =
     set (mspMapPoints (mpMap s))
       \<union> {p. vpMaps ! n = Some p \<and> \<not> MapPoint_isBad (mp_at (mem s) p)}"
  by (auto simp: AddKeyFrame_slot_def Map_AddMapPoint_def split: option.splits)

lemma fold_slot_isBad:
  "MapPoint_isBad (mp_at (mem (fold (AddKeyFrame_slot k vpMaps) is s)) q)
     = MapPoint_isBad (mp_at (mem s) q)"
  by (simp add: MapPoint_isBad_def fold_slot_bad)

lemma fold_slot_obs:
  "mObservations (mp_at (mem (fold (AddKeyFrame_slot k vpMaps) [0..<n] s)) p) k =
     (if MapPoint_isBad (mp_at (mem s) p) then mObservations (mp_at (mem s) p) k
      else case last_slot vpMaps p n of
             None \<Rightarrow> mObservations (mp_at (mem s) p) k
           | Some i \<Rightarrow> Some i)"
proof (induction n)
  case 0
  then show ?case by simp
next
  case (Suc n)
  have "fold (AddKeyFrame_slot k vpMaps) [0..<Suc n] s
          = AddKeyFrame_slot k vpMaps n (fold (AddKeyFrame_slot k vpMaps) [0..<n] s)"
    by simp
  then show ?case
    by (simp only: AddKeyFrame_slot_obs fold_slot_isBad Suc.IH) simp
qed

lemma fold_slot_mps:
  "set (mspMapPoints (mpMap (fold (AddKeyFrame_slot k vpMaps) [0..<n] s))) =
     set (mspMapPoints (mpMap s))
       \<union> {p. \<not> MapPoint_isBad (mp_at (mem s) p) \<and> (\<exists>i<n. vpMaps ! i = Some p)}"
proof (induction n)
  case 0
  then show ?case by simp
next
  case (Suc n)
  have "fold (AddKeyFrame_slot k vpMaps) [0..<Suc n] s
          = AddKeyFrame_slot k vpMaps n (fold (AddKeyFrame_slot k vpMaps) [0..<n] s)"
    by simp
  then show ?case
    by (simp only: AddKeyFrame_slot_mps fold_slot_isBad Suc.IH) (auto simp: less_Suc_eq)
qed


lemma last_slot_Some: "last_slot xs p n = Some i \<Longrightarrow> i < n \<and> xs ! i = Some p"
  by (induction n) (auto split: if_splits simp: less_Suc_eq)

lemma last_slot_None: "last_slot xs p n = None \<Longrightarrow> i < n \<Longrightarrow> xs ! i \<noteq> Some p"
  by (induction n) (auto split: if_splits simp: less_Suc_eq)

lemma AddKeyFrame_kf: "kf_at (mem (AddKeyFrame k s)) = kf_at (mem s)"
  by (simp add: AddKeyFrame_def Let_def GetMapPointMatches_def fold_slot_kf)

lemma AddKeyFrame_isBad:
  "MapPoint_isBad (mp_at (mem (AddKeyFrame k s)) p) = MapPoint_isBad (mp_at (mem s) p)"
  by (simp add: AddKeyFrame_def Let_def fold_slot_isBad)

lemma AddKeyFrame_obs_other:
  "k' \<noteq> k \<Longrightarrow> mObservations (mp_at (mem (AddKeyFrame k s)) p) k'
                = mObservations (mp_at (mem s) p) k'"
  by (simp add: AddKeyFrame_def Let_def fold_slot_obs_other)

lemma AddKeyFrame_obs:
  "mObservations (mp_at (mem (AddKeyFrame k s)) p) k =
     (if MapPoint_isBad (mp_at (mem s) p) then mObservations (mp_at (mem s) p) k
      else case last_slot (mvpMapPoints (kf_at (mem s) k)) p
                  (length (mvpMapPoints (kf_at (mem s) k))) of
             None \<Rightarrow> mObservations (mp_at (mem s) p) k
           | Some i \<Rightarrow> Some i)"
  by (simp add: AddKeyFrame_def Let_def GetMapPointMatches_def fold_slot_obs
        split: option.splits)

lemma AddKeyFrame_kfs:
  "set (mspKeyFrames (mpMap (AddKeyFrame k s))) = insert k (set (mspKeyFrames (mpMap s)))"
  "set (mpKeyFrameDatabase (AddKeyFrame k s)) = insert k (set (mpKeyFrameDatabase s))"
  by (simp_all add: AddKeyFrame_def Let_def fold_slot_store Map_AddKeyFrame_def
        KeyFrameDatabase_add_def)

lemma AddKeyFrame_mps:
  "set (mspMapPoints (mpMap (AddKeyFrame k s))) =
     set (mspMapPoints (mpMap s)) \<union> {p. \<exists>i. good_slot (mem s) k i p}"
  by (auto simp: AddKeyFrame_def Let_def GetMapPointMatches_def fold_slot_mps
        Map_AddKeyFrame_def good_slot_def)

lemma AddKeyFrame_links:
  assumes "good_slot (mem s) k i p"
  shows "\<exists>j. good_slot (mem s) k j p
           \<and> mObservations (mp_at (mem (AddKeyFrame k s)) p) k = Some j"
proof -
  let ?xs = "mvpMapPoints (kf_at (mem s) k)"
  from assms have g: "i < length ?xs" "?xs ! i = Some p" "\<not> MapPoint_isBad (mp_at (mem s) p)"
    by (simp_all add: good_slot_def)
  obtain j where j: "last_slot ?xs p (length ?xs) = Some j"
    using last_slot_None [of ?xs p "length ?xs" i] g(1,2) by (cases "last_slot ?xs p (length ?xs)") auto
  from last_slot_Some [OF j] g(3) have "good_slot (mem s) k j p" by (simp add: good_slot_def)
  moreover have "mObservations (mp_at (mem (AddKeyFrame k s)) p) k = Some j"
    using j g(3) by (simp add: AddKeyFrame_obs)
  ultimately show ?thesis by (intro exI conjI)
qed

lemma AddKeyFrame_bad_landmark:
  assumes "MapPoint_isBad (mp_at (mem s) p)"
  shows "mp_at (mem (AddKeyFrame k s)) p = mp_at (mem s) p"
proof (rule MapPoint.equality)
  show "mp_mbBad (mp_at (mem (AddKeyFrame k s)) p) = mp_mbBad (mp_at (mem s) p)"
    using AddKeyFrame_isBad [of k s p] by (simp add: MapPoint_isBad_def)
  show "mObservations (mp_at (mem (AddKeyFrame k s)) p) = mObservations (mp_at (mem s) p)"
  proof
    fix k'
    show "mObservations (mp_at (mem (AddKeyFrame k s)) p) k' = mObservations (mp_at (mem s) p) k'"
      using assms by (cases "k' = k") (simp_all add: AddKeyFrame_obs AddKeyFrame_obs_other)
  qed
  show "MapPoint.more (mp_at (mem (AddKeyFrame k s)) p) = MapPoint.more (mp_at (mem s) p)"
    by simp
qed

text \<open>A good slot is told from the slots and the bad flags alone.\<close>

lemma good_slot_cong:
  "kf_at h' = kf_at h \<Longrightarrow> (\<And>p. MapPoint_isBad (mp_at h' p) = MapPoint_isBad (mp_at h p)) \<Longrightarrow>
   good_slot h' k i p = good_slot h k i p"
  by (simp add: good_slot_def)


lemma LoadKeyFrames_snoc:
  "LoadKeyFrames (vpKFs @ [pKF]) sc = LoadKeyFrames_step pKF (LoadKeyFrames vpKFs sc)"
  by (simp add: LoadKeyFrames_def)

lemma LoadKeyFrames_step_cases:
  "fst (LoadKeyFrames_step pKF sc) =
     (case pKF of
        None \<Rightarrow> fst sc
      | Some k \<Rightarrow> if isBad (kf_at (mem (fst sc)) k) then fst sc else AddKeyFrame k (fst sc))"
  by (simp add: LoadKeyFrames_step_def split: option.splits)

lemma LoadKeyFrames_step_frame:
  "kf_at (mem (fst (LoadKeyFrames_step pKF sc))) = kf_at (mem (fst sc))"
  "MapPoint_isBad (mp_at (mem (fst (LoadKeyFrames_step pKF sc))) p)
     = MapPoint_isBad (mp_at (mem (fst sc)) p)"
  by (simp_all add: LoadKeyFrames_step_cases AddKeyFrame_kf AddKeyFrame_isBad split: option.splits)

lemma LoadKeyFrames_frame:
  "kf_at (mem (fst (LoadKeyFrames vpKFs sc))) = kf_at (mem (fst sc))"
  "MapPoint_isBad (mp_at (mem (fst (LoadKeyFrames vpKFs sc))) p)
     = MapPoint_isBad (mp_at (mem (fst sc)) p)"
  by (induction vpKFs rule: rev_induct)
     (simp_all add: LoadKeyFrames_snoc LoadKeyFrames_step_frame, simp_all add: LoadKeyFrames_def)

lemma LoadKeyFrames_good_slot:
  "good_slot (mem (fst (LoadKeyFrames vpKFs sc))) k i p = good_slot (mem (fst sc)) k i p"
  by (rule good_slot_cong) (simp_all add: LoadKeyFrames_frame)

lemma survives_snoc:
  "survives h (vpKFs @ [pKF]) k = (survives h vpKFs k \<or> (pKF = Some k \<and> \<not> isBad (kf_at h k)))"
  by (auto simp: survives_def)

lemma LoadKeyFrames_kfs:
  "set (mspKeyFrames (mpMap (fst (LoadKeyFrames vpKFs sc)))) =
     set (mspKeyFrames (mpMap (fst sc))) \<union> {k. survives (mem (fst sc)) vpKFs k}"
proof (induction vpKFs rule: rev_induct)
  case Nil
  then show ?case by (simp add: LoadKeyFrames_def survives_def)
next
  case (snoc pKF vpKFs)
  show ?case
    by (cases pKF)
       (auto simp: LoadKeyFrames_snoc LoadKeyFrames_step_cases snoc.IH survives_snoc
          LoadKeyFrames_frame AddKeyFrame_kfs)
qed

lemma LoadKeyFrames_mps:
  "set (mspMapPoints (mpMap (fst (LoadKeyFrames vpKFs sc)))) =
     set (mspMapPoints (mpMap (fst sc)))
       \<union> {p. \<exists>k i. survives (mem (fst sc)) vpKFs k \<and> good_slot (mem (fst sc)) k i p}"
proof (induction vpKFs rule: rev_induct)
  case Nil
  then show ?case by (simp add: LoadKeyFrames_def survives_def)
next
  case (snoc pKF vpKFs)
  show ?case
    by (cases pKF)
       (auto simp: LoadKeyFrames_snoc LoadKeyFrames_step_cases snoc.IH survives_snoc
          LoadKeyFrames_frame AddKeyFrame_mps LoadKeyFrames_good_slot)
qed

lemma LoadKeyFrames_step_obs_other:
  assumes "\<not> (pKF = Some k \<and> \<not> isBad (kf_at (mem (fst sc)) k))"
  shows "mObservations (mp_at (mem (fst (LoadKeyFrames_step pKF sc))) p) k
           = mObservations (mp_at (mem (fst sc)) p) k"
proof (cases pKF)
  case None
  then show ?thesis by (simp add: LoadKeyFrames_step_cases)
next
  case (Some a)
  show ?thesis
  proof (cases "a = k")
    case True
    with Some assms show ?thesis by (simp add: LoadKeyFrames_step_cases)
  next
    case False
    then have "k \<noteq> a" by simp
    then show ?thesis using Some by (simp add: LoadKeyFrames_step_cases AddKeyFrame_obs_other)
  qed
qed

lemma LoadKeyFrames_obs_skipped:
  "\<not> survives (mem (fst sc)) vpKFs k \<Longrightarrow>
   mObservations (mp_at (mem (fst (LoadKeyFrames vpKFs sc))) p) k
     = mObservations (mp_at (mem (fst sc)) p) k"
proof (induction vpKFs rule: rev_induct)
  case Nil
  then show ?case by (simp add: LoadKeyFrames_def)
next
  case (snoc pKF vpKFs)
  from snoc.prems have ns: "\<not> survives (mem (fst sc)) vpKFs k"
    and nk: "\<not> (pKF = Some k \<and> \<not> isBad (kf_at (mem (fst sc)) k))"
    by (simp_all add: survives_snoc)
  have nk': "\<not> (pKF = Some k \<and> \<not> isBad (kf_at (mem (fst (LoadKeyFrames vpKFs sc))) k))"
    using nk by (simp add: LoadKeyFrames_frame)
  show ?case
    using snoc.IH [OF ns]
    by (simp add: LoadKeyFrames_snoc LoadKeyFrames_step_obs_other [OF nk'])
qed

lemma LoadKeyFrames_bad_landmark:
  "MapPoint_isBad (mp_at (mem (fst sc)) p) \<Longrightarrow>
   mp_at (mem (fst (LoadKeyFrames vpKFs sc))) p = mp_at (mem (fst sc)) p"
proof (induction vpKFs rule: rev_induct)
  case Nil
  then show ?case by (simp add: LoadKeyFrames_def)
next
  case (snoc pKF vpKFs)
  have b: "MapPoint_isBad (mp_at (mem (fst (LoadKeyFrames vpKFs sc))) p)"
    using snoc.prems by (simp add: LoadKeyFrames_frame)
  show ?case
    using snoc.IH [OF snoc.prems] AddKeyFrame_bad_landmark [OF b]
    by (cases pKF) (auto simp: LoadKeyFrames_snoc LoadKeyFrames_step_cases)
qed

lemma LoadKeyFrames_links:
  assumes sv: "survives (mem (fst sc)) vpKFs k" and gs: "good_slot (mem (fst sc)) k i p"
  shows "\<exists>j. good_slot (mem (fst sc)) k j p
           \<and> mObservations (mp_at (mem (fst (LoadKeyFrames vpKFs sc))) p) k = Some j"
  using sv
proof (induction vpKFs rule: rev_induct)
  case Nil
  then show ?case by (simp add: survives_def)
next
  case (snoc pKF vpKFs)
  let ?t = "fst (LoadKeyFrames vpKFs sc)"
  have gst: "good_slot (mem ?t) k i p" using gs by (simp add: LoadKeyFrames_good_slot)
  show ?case
  proof (cases "pKF = Some k \<and> \<not> isBad (kf_at (mem (fst sc)) k)")
    case True
    from AddKeyFrame_links [OF gst] obtain j where
      j: "good_slot (mem ?t) k j p" "mObservations (mp_at (mem (AddKeyFrame k ?t)) p) k = Some j"
      by blast
    have 1: "good_slot (mem (fst sc)) k j p" using j(1) by (simp add: LoadKeyFrames_good_slot)
    have 2: "mObservations (mp_at (mem (fst (LoadKeyFrames (vpKFs @ [pKF]) sc))) p) k = Some j"
      using True j(2)
      by (simp add: LoadKeyFrames_snoc LoadKeyFrames_step_cases LoadKeyFrames_frame)
    show ?thesis using 1 2 by (intro exI conjI)
  next
    case False
    with snoc.prems have "survives (mem (fst sc)) vpKFs k" by (simp add: survives_snoc)
    from snoc.IH [OF this] obtain j where
      j: "good_slot (mem (fst sc)) k j p" "mObservations (mp_at (mem ?t) p) k = Some j"
      by blast
    have nk: "\<not> (pKF = Some k \<and> \<not> isBad (kf_at (mem ?t) k))"
      using False by (simp add: LoadKeyFrames_frame)
    have "mObservations (mp_at (mem (fst (LoadKeyFrames (vpKFs @ [pKF]) sc))) p) k = Some j"
      using j(2) by (simp add: LoadKeyFrames_snoc LoadKeyFrames_step_obs_other [OF nk])
    with j(1) show ?thesis by (intro exI conjI)
  qed
qed

text \<open>The batch of the example.\<close>

lemma memory_graph_facts:
  "mvpMapPoints (kf_at memory_graph 10) = [Some 100, None, Some 101]"
  "mvpMapPoints (kf_at memory_graph 12) = [Some 102, Some 101]"
  "\<not> isBad (kf_at memory_graph 10)" "isBad (kf_at memory_graph 11)"
  "\<not> isBad (kf_at memory_graph 12)"
  "MapPoint_isBad (mp_at memory_graph p) = (p = 102)"
  by (simp_all add: memory_graph_def KeyFrame_slots_def KeyFrame_default_def
        MapPoint_default_def isBad_def MapPoint_isBad_def)

lemma survives_example: "survives memory_graph vpKFs_ex k = (k = 10 \<or> k = 12)"
  using memory_graph_facts(3,4,5) by (auto simp: survives_def vpKFs_ex_def)

lemma good_slot_example:
  "good_slot memory_graph 10 i p = (i = 0 \<and> p = 100 \<or> i = 2 \<and> p = 101)"
  "good_slot memory_graph 12 i p = (i = 1 \<and> p = 101)"
  by (auto simp: good_slot_def memory_graph_facts less_Suc_eq numeral_3_eq_3 numeral_2_eq_2
        nth_Cons')

lemma only_slot_example: "only_slot memory_graph 12 1 101"
  by (simp add: only_slot_def good_slot_example)

text \<open>
  C4, as amended. After \<open>LoadKeyFrames\<close>: for every surviving keyframe \<open>k\<close> and every
  slot \<open>i\<close> of it holding a non-bad landmark \<open>p\<close>, slot \<open>i\<close> of \<open>k\<close> holds \<open>p\<close>,
  \<open>k\<close> and \<open>p\<close> are in the store, and the observations of \<open>p\<close> map \<open>k\<close> to a
  slot of \<open>k\<close> that holds \<open>p\<close>: to \<open>i\<close> when \<open>k\<close> holds \<open>p\<close> in no other slot. The
  store has gained the surviving keyframes and their non-bad landmarks and nothing
  else; no observation is recorded for a keyframe that does not survive, and a bad
  landmark is left as it was.
\<close>

theorem LoadKeyFrames_bidirectional:
  assumes s': "s' = fst (LoadKeyFrames vpKFs (s, c))"
  shows "(\<forall>k i p. survives (mem s) vpKFs k \<and> good_slot (mem s) k i p \<longrightarrow>
            mvpMapPoints (kf_at (mem s') k) ! i = Some p
          \<and> k \<in> set (mspKeyFrames (mpMap s')) \<and> p \<in> set (mspMapPoints (mpMap s'))
          \<and> (\<exists>j. good_slot (mem s) k j p \<and> mObservations (mp_at (mem s') p) k = Some j)
          \<and> (only_slot (mem s) k i p \<longrightarrow> mObservations (mp_at (mem s') p) k = Some i))
     \<and> set (mspKeyFrames (mpMap s')) = set (mspKeyFrames (mpMap s)) \<union> {k. survives (mem s) vpKFs k}
     \<and> set (mspMapPoints (mpMap s')) =
           set (mspMapPoints (mpMap s))
             \<union> {p. \<exists>k i. survives (mem s) vpKFs k \<and> good_slot (mem s) k i p}
     \<and> (\<forall>k p. \<not> survives (mem s) vpKFs k \<longrightarrow>
            mObservations (mp_at (mem s') p) k = mObservations (mp_at (mem s) p) k)
     \<and> (\<forall>p. MapPoint_isBad (mp_at (mem s) p) \<longrightarrow> mp_at (mem s') p = mp_at (mem s) p)"
proof -
  have kfs: "set (mspKeyFrames (mpMap s')) = set (mspKeyFrames (mpMap s)) \<union> {k. survives (mem s) vpKFs k}"
    unfolding s' using LoadKeyFrames_kfs [of vpKFs "(s, c)"] by simp
  have mps: "set (mspMapPoints (mpMap s')) =
           set (mspMapPoints (mpMap s))
             \<union> {p. \<exists>k i. survives (mem s) vpKFs k \<and> good_slot (mem s) k i p}"
    unfolding s' using LoadKeyFrames_mps [of vpKFs "(s, c)"] by simp
  have a: "\<forall>k i p. survives (mem s) vpKFs k \<and> good_slot (mem s) k i p \<longrightarrow>
            mvpMapPoints (kf_at (mem s') k) ! i = Some p
          \<and> k \<in> set (mspKeyFrames (mpMap s')) \<and> p \<in> set (mspMapPoints (mpMap s'))
          \<and> (\<exists>j. good_slot (mem s) k j p \<and> mObservations (mp_at (mem s') p) k = Some j)
          \<and> (only_slot (mem s) k i p \<longrightarrow> mObservations (mp_at (mem s') p) k = Some i)"
  proof (intro allI impI, elim conjE)
    fix k i p
    assume sv: "survives (mem s) vpKFs k" and gs: "good_slot (mem s) k i p"
    have 1: "\<exists>j. good_slot (mem s) k j p \<and> mObservations (mp_at (mem s') p) k = Some j"
      unfolding s' using LoadKeyFrames_links [of "(s, c)" vpKFs k i p] sv gs by simp
    have 5: "only_slot (mem s) k i p \<longrightarrow> mObservations (mp_at (mem s') p) k = Some i"
    proof
      assume o: "only_slot (mem s) k i p"
      from 1 obtain j where j: "good_slot (mem s) k j p"
        "mObservations (mp_at (mem s') p) k = Some j" by blast
      from o j(1) have "j = i" by (simp add: only_slot_def)
      with j(2) show "mObservations (mp_at (mem s') p) k = Some i" by simp
    qed
    have "kf_at (mem s') = kf_at (mem s)"
      unfolding s' using LoadKeyFrames_frame(1) [of vpKFs "(s, c)"] by simp
    then have 2: "mvpMapPoints (kf_at (mem s') k) ! i = Some p"
      using gs by (simp add: good_slot_def)
    have 3: "k \<in> set (mspKeyFrames (mpMap s'))" using kfs sv by simp
    have 4: "p \<in> set (mspMapPoints (mpMap s'))" using mps sv gs by blast
    show "mvpMapPoints (kf_at (mem s') k) ! i = Some p
          \<and> k \<in> set (mspKeyFrames (mpMap s')) \<and> p \<in> set (mspMapPoints (mpMap s'))
          \<and> (\<exists>j. good_slot (mem s) k j p \<and> mObservations (mp_at (mem s') p) k = Some j)
          \<and> (only_slot (mem s) k i p \<longrightarrow> mObservations (mp_at (mem s') p) k = Some i)"
      using 1 2 3 4 5 by (intro conjI)
  qed
  have d: "\<forall>k p. \<not> survives (mem s) vpKFs k \<longrightarrow>
            mObservations (mp_at (mem s') p) k = mObservations (mp_at (mem s) p) k"
    unfolding s' using LoadKeyFrames_obs_skipped [of "(s, c)" vpKFs] by simp
  have e: "\<forall>p. MapPoint_isBad (mp_at (mem s) p) \<longrightarrow> mp_at (mem s') p = mp_at (mem s) p"
    unfolding s' using LoadKeyFrames_bad_landmark [of "(s, c)" _ vpKFs] by simp
  show ?thesis using a kfs mps d e by (intro conjI)
qed

theorem LoadKeyFrames_bidirectional_witness:
  "survives (mem System_decoded) vpKFs_ex 12 \<and> good_slot (mem System_decoded) 12 1 101
   \<and> only_slot (mem System_decoded) 12 1 101
   \<and> mObservations (mp_at (mem (fst (LoadKeyFrames vpKFs_ex (System_decoded, 0)))) 101) 12 = Some 1
   \<and> mvpMapPoints (kf_at (mem (fst (LoadKeyFrames vpKFs_ex (System_decoded, 0)))) 12) ! 1 = Some 101
   \<and> set (mspKeyFrames (mpMap (fst (LoadKeyFrames vpKFs_ex (System_decoded, 0))))) = {10, 12}
   \<and> set (mspMapPoints (mpMap (fst (LoadKeyFrames vpKFs_ex (System_decoded, 0))))) = {100, 101}
   \<and> \<not> survives (mem System_decoded) vpKFs_ex 11
   \<and> mObservations (mp_at (mem (fst (LoadKeyFrames vpKFs_ex (System_decoded, 0)))) 100) 11 = None
   \<and> MapPoint_isBad (mp_at (mem System_decoded) 102)
   \<and> mp_at (mem (fst (LoadKeyFrames vpKFs_ex (System_decoded, 0)))) 102 = mp_at (mem System_decoded) 102"
proof -
  let ?s' = "fst (LoadKeyFrames vpKFs_ex (System_decoded, 0))"
  have m: "mem System_decoded = memory_graph" by (simp add: System_decoded_def)
  have st: "mspKeyFrames (mpMap System_decoded) = []" "mspMapPoints (mpMap System_decoded) = []"
    by (simp_all add: System_decoded_def System_new_def)
  note t = LoadKeyFrames_bidirectional [OF refl, where vpKFs = vpKFs_ex and s = System_decoded and c = 0]
  have sv: "survives (mem System_decoded) vpKFs_ex 12" "\<not> survives (mem System_decoded) vpKFs_ex 11"
    by (simp_all add: m survives_example)
  have gs: "good_slot (mem System_decoded) 12 1 101" by (simp add: m good_slot_example)
  have os: "only_slot (mem System_decoded) 12 1 101" unfolding m by (rule only_slot_example)
  have bad: "MapPoint_isBad (mp_at (mem System_decoded) 102)" by (simp add: m memory_graph_facts)
  from t sv(1) gs os have a: "mObservations (mp_at (mem ?s') 101) 12 = Some 1"
    "mvpMapPoints (kf_at (mem ?s') 12) ! 1 = Some 101" by blast+
  from t have "set (mspKeyFrames (mpMap ?s'))
      = set (mspKeyFrames (mpMap System_decoded)) \<union> {k. survives (mem System_decoded) vpKFs_ex k}"
    by blast
  then have b: "set (mspKeyFrames (mpMap ?s')) = {10, 12}"
    by (auto simp: st m survives_example)
  from t have "set (mspMapPoints (mpMap ?s')) = set (mspMapPoints (mpMap System_decoded))
       \<union> {p. \<exists>k i. survives (mem System_decoded) vpKFs_ex k \<and> good_slot (mem System_decoded) k i p}"
    by blast
  then have c: "set (mspMapPoints (mpMap ?s')) = {100, 101}"
    by (auto simp: st m survives_example good_slot_example)
  from t sv(2) have "mObservations (mp_at (mem ?s') 100) 11 = mObservations (mp_at (mem System_decoded) 100) 11"
    by blast
  then have d: "mObservations (mp_at (mem ?s') 100) 11 = None"
    by (simp add: m memory_graph_def MapPoint_default_def)
  from t bad have e: "mp_at (mem ?s') 102 = mp_at (mem System_decoded) 102" by blast
  show ?thesis using sv gs os a b c d bad e by (intro conjI)
qed

text \<open>
  C4, as stated, fails: the claim promises the observation \<open>k \<rightarrow> i\<close> for every
  occupied slot \<open>i\<close>. Keyframe 20 survives and holds the non-bad landmark 101 in slot 0
  and in slot 1; the install calls \<open>AddObservation\<close> for slot 0 and then for slot 1,
  and the observations of 101, which hold one index for a keyframe, map 20 to 1 and
  not to 0.
\<close>

theorem LoadKeyFrames_duplicate_slot_counterexample:
  "survives (mem System_dup) [Some 20] 20
   \<and> good_slot (mem System_dup) 20 0 101 \<and> good_slot (mem System_dup) 20 1 101
   \<and> mObservations (mp_at (mem (fst (LoadKeyFrames [Some 20] (System_dup, 0)))) 101) 20 = Some 1
   \<and> mObservations (mp_at (mem (fst (LoadKeyFrames [Some 20] (System_dup, 0)))) 101) 20 \<noteq> Some 0"
proof -
  have m: "mem System_dup = memory_dup" by (simp add: System_dup_def)
  have f: "mvpMapPoints (kf_at memory_dup 20) = [Some 101, Some 101]"
    "\<not> isBad (kf_at memory_dup 20)" "\<not> MapPoint_isBad (mp_at memory_dup 101)"
    by (simp_all add: memory_dup_def KeyFrame_slots_def KeyFrame_default_def
          MapPoint_default_def isBad_def MapPoint_isBad_def)
  have 1: "survives (mem System_dup) [Some 20] 20" by (simp add: survives_def m f)
  have 2: "good_slot (mem System_dup) 20 0 101" "good_slot (mem System_dup) 20 1 101"
    by (simp_all add: good_slot_def m f)
  have l: "last_slot [Some 101, Some 101] 101 (length [Some 101, Some (101::nat)]) = Some 1"
    by (simp add: numeral_2_eq_2)
  have "fst (LoadKeyFrames [Some 20] (System_dup, 0)) = AddKeyFrame 20 System_dup"
    using f(2) by (simp add: LoadKeyFrames_def LoadKeyFrames_step_cases m)
  then have 3: "mObservations (mp_at (mem (fst (LoadKeyFrames [Some 20] (System_dup, 0)))) 101) 20
                  = Some 1"
    using f(3) by (simp only: AddKeyFrame_obs m f(1) l) simp
  then have 4: "mObservations (mp_at (mem (fst (LoadKeyFrames [Some 20] (System_dup, 0)))) 101) 20
                  \<noteq> Some 0"
    by simp
  show ?thesis using 1 2 3 4 by (intro conjI)
qed

end
